theory Spec2Isabelle
  imports
    Main
    "HOL-Library.Word"
    "HOL-Library.Multiset"
    "HOL-Library.Char_ord"
    "HOL-Library.List_Lexorder"
    "HOL-Library.Product_Lexorder"
begin

section \<open>Akumuli query processing: a shallow embedding\<close>

text \<open>
  The development follows \<^verbatim>\<open>libakumuli/query_processing/queryparser.cpp\<close>,
  \<^verbatim>\<open>libakumuli/query_processing/queryplan.cpp\<close>,
  \<^verbatim>\<open>libakumuli/query_processing/randomsamplingnode.cpp\<close> and
  \<^verbatim>\<open>libakumuli/queryprocessor.cpp\<close>. Every C++ function is a HOL function of the
  same name; mutation is explicit state passing, \<^verbatim>\<open>AKU_PANIC\<close> and C++ exceptions are
  the left summand of a sum type.
\<close>

subsection \<open>Basic types\<close>

type_synonym u16 = "16 word"
type_synonym u32 = "32 word"
type_synonym u64 = "64 word"
type_synonym aku_Timestamp = u64
type_synonym aku_Duration = u64
type_synonym aku_ParamId = u64

text \<open>The status codes the parser and the plan builder return.\<close>

datatype aku_Status =
    AKU_SUCCESS
  | AKU_ENO_DATA
  | AKU_EBAD_ARG
  | AKU_EBAD_DATA
  | AKU_EQUERY_PARSING_ERROR
  | AKU_EOVERFLOW

text \<open>
  What leaves a function other than by \<^verbatim>\<open>return\<close>: \<^verbatim>\<open>AKU_PANIC(msg)\<close>, a boost
  \<^verbatim>\<open>ptree_bad_data\<close> exception thrown by \<^verbatim>\<open>get_value<u64>()\<close>, the integer
  division by zero of \<^verbatim>\<open>x % 0\<close>, and the \<^verbatim>\<open>std::out_of_range\<close> of
  \<^verbatim>\<open>vector::at\<close>.
\<close>

datatype failure =
    Panic string
  | PtreeBadData
  | DivisionByZero
  | OutOfRange

subsection \<open>Property trees\<close>

text \<open>
  \<^verbatim>\<open>boost::property_tree::ptree\<close>: a node carries a data string and an ordered list of
  (key, child) pairs; keys may repeat. A JSON object is a node whose children are its
  members in document order, a JSON array is a node whose children all have the empty
  key, a JSON scalar is a node without children whose data is the scalar's text.
\<close>

datatype ptree = PTree (data: string) (children: "(string \<times> ptree) list")

text \<open>
  \<^verbatim>\<open>get_child_optional(key)\<close> for a key without the path separator: the first child
  with that key.
\<close>

definition get_child_optional :: "ptree \<Rightarrow> string \<Rightarrow> ptree option" where
  "get_child_optional pt key = map_of (children pt) key"

text \<open>\<^verbatim>\<open>empty()\<close>: the node has no children.\<close>

definition empty_ptree :: "ptree \<Rightarrow> bool" where
  "empty_ptree pt = (children pt = [])"

text \<open>\<^verbatim>\<open>get_value<std::string>()\<close>: the node's data; it cannot fail for a string.\<close>

definition get_value_string :: "ptree \<Rightarrow> string" where
  "get_value_string pt = data pt"

subsection \<open>validate_query\<close>

definition UNIQUE_STMTS :: "string list" where
  "UNIQUE_STMTS = [''select'', ''aggregate'', ''join'', ''group-aggregate'']"

definition ALLOWED_STMTS :: "string set" where
  "ALLOWED_STMTS = {''select'', ''aggregate'', ''join'', ''output'', ''order-by'',
     ''group-by'', ''limit'', ''offset'', ''range'', ''where'', ''group-aggregate''}"

text \<open>
  The loop of \<^verbatim>\<open>validate_query\<close> over the items of the tree. \<open>keywords\<close> is the
  local \<^verbatim>\<open>std::set<std::string> keywords\<close>: the loop body only reads it
  (\<^verbatim>\<open>keywords.count\<close>), no statement of the body inserts into it, so it is passed on
  unchanged.
\<close>

fun validate_loop :: "string set \<Rightarrow> (string \<times> ptree) list \<Rightarrow> aku_Status" where
  "validate_loop keywords [] = AKU_SUCCESS"
| "validate_loop keywords (item # items) =
     (let keyword = fst item in
      if keyword \<notin> ALLOWED_STMTS then AKU_EQUERY_PARSING_ERROR
      else if keyword \<in> keywords then AKU_EQUERY_PARSING_ERROR
      else if list_ex (\<lambda>kw. kw \<in> keywords) UNIQUE_STMTS then AKU_EQUERY_PARSING_ERROR
      else validate_loop keywords items)"

definition validate_query :: "ptree \<Rightarrow> aku_Status" where
  "validate_query pt = validate_loop {} (children pt)"

subsection \<open>Samples and the downstream node\<close>

text \<open>
  Modelled from the spec: the payload type tags. \<^verbatim>\<open>akumuli_def.h\<close> is not among the
  sources; the spec's data model names the tags \<^verbatim>\<open>EMPTY\<close> (group-by boundary marker),
  \<^verbatim>\<open>MARGIN\<close> (internal non-data event) and \<^verbatim>\<open>PARAMID_BIT\<close> (id only, no value);
  \<open>FLOAT_BIT\<close> stands for a payload that carries a value.
\<close>

datatype aku_PData_type = EMPTY | MARGIN | PARAMID_BIT | FLOAT_BIT

text \<open>
  \<open>float64\<close> is the bit pattern of the payload's double; no function below inspects it.
\<close>

record aku_PData =
  float64 :: u64
  psize :: u16
  ptype :: aku_PData_type

record aku_Sample =
  timestamp :: aku_Timestamp
  paramid :: aku_ParamId
  payload :: aku_PData

text \<open>
  Modelled from the spec: \<^verbatim>\<open>AKU_MIN_TIMESTAMP\<close> and \<^verbatim>\<open>EMPTY_SAMPLE\<close> are declared in
  headers that are not among the sources. The timestamp type is an unsigned 64-bit count,
  so its least value is 0; the marker sample is a sample with the \<^verbatim>\<open>EMPTY\<close> payload.
\<close>

definition AKU_MIN_TIMESTAMP :: aku_Timestamp where
  "AKU_MIN_TIMESTAMP = 0"

definition EMPTY_SAMPLE :: aku_Sample where
  "EMPTY_SAMPLE = \<lparr>timestamp = 0, paramid = 0,
                    payload = \<lparr>float64 = 0, psize = 0, ptype = EMPTY\<rparr>\<rparr>"

text \<open>
  The node a node forwards to (\<^verbatim>\<open>next_\<close>, \<^verbatim>\<open>root_\<close>) is any implementation of the
  \<^verbatim>\<open>Node\<close> interface. It is modelled by the log of the calls made to it so far and by
  its answer to \<^verbatim>\<open>put\<close>, a function of that log and of the sample.
\<close>

datatype event = Put aku_Sample | Complete | SetError aku_Status

type_synonym next_node = "event list \<Rightarrow> aku_Sample \<Rightarrow> bool"

definition next_put :: "next_node \<Rightarrow> event list \<Rightarrow> aku_Sample \<Rightarrow> bool \<times> event list" where
  "next_put nxt log s = (nxt log s, log @ [Put s])"

definition next_complete :: "event list \<Rightarrow> event list" where
  "next_complete log = log @ [Complete]"

definition next_set_error :: "event list \<Rightarrow> aku_Status \<Rightarrow> event list" where
  "next_set_error log status = log @ [SetError status]"

text \<open>The samples a log says were put, in order.\<close>

fun puts_of :: "event list \<Rightarrow> aku_Sample list" where
  "puts_of [] = []"
| "puts_of (Put s # es) = s # puts_of es"
| "puts_of (e # es) = puts_of es"

definition is_EMPTY :: "aku_Sample \<Rightarrow> bool" where
  "is_EMPTY s = (ptype (payload s) = EMPTY)"

text \<open>A node that accepts every sample.\<close>

definition accept_all :: next_node where
  "accept_all log s = True"

text \<open>A node that refuses every sample.\<close>

definition refuse_all :: next_node where
  "refuse_all log s = False"

subsection \<open>GroupByStatement (queryprocessor.cpp)\<close>

text \<open>
  A data member \<^verbatim>\<open>name_\<close> of a C++ class is the record field \<open>name'\<close>.
\<close>

record GroupByStatement =
  step' :: aku_Timestamp
  first_hit' :: bool
  lowerbound' :: aku_Timestamp
  upperbound' :: aku_Timestamp

definition GroupByStatement_init :: "aku_Timestamp \<Rightarrow> GroupByStatement" where
  "GroupByStatement_init step =
     \<lparr>step' = step, first_hit' = True,
      lowerbound' = AKU_MIN_TIMESTAMP, upperbound' = AKU_MIN_TIMESTAMP\<rparr>"

text \<open>
  \<^verbatim>\<open>GroupByStatement::put(sample, next)\<close>. All arithmetic is that of \<^verbatim>\<open>uint64_t\<close>:
  \<open>div\<close> is the unsigned division, \<open>+\<close>, \<open>-\<close> and \<open>*\<close> wrap around.
\<close>

definition GroupByStatement_put ::
  "next_node \<Rightarrow> GroupByStatement \<Rightarrow> event list \<Rightarrow> aku_Sample
     \<Rightarrow> bool \<times> GroupByStatement \<times> event list" where
  "GroupByStatement_put nxt g log sample =
     (if step' g \<noteq> 0 then
        let ts = timestamp sample;
            g1 = (if first_hit' g then
                    let aligned = ts div step' g * step' g
                    in g\<lparr>first_hit' := False, lowerbound' := aligned,
                         upperbound' := aligned + step' g\<rparr>
                  else g)
        in if upperbound' g1 \<le> ts then
             let empty = EMPTY_SAMPLE\<lparr>timestamp := upperbound' g1\<rparr>;
                 (ok, log1) = next_put nxt log empty
             in if \<not> ok then (False, g1, log1)
                else
                  let g2 = g1\<lparr>lowerbound' := lowerbound' g1 + step' g1,
                              upperbound' := upperbound' g1 + step' g1\<rparr>;
                      (r, log2) = next_put nxt log1 sample
                  in (r, g2, log2)
           else if ts < lowerbound' g1 then
             let empty = EMPTY_SAMPLE\<lparr>timestamp := upperbound' g1\<rparr>;
                 (ok, log1) = next_put nxt log empty
             in if \<not> ok then (False, g1, log1)
                else
                  let g2 = g1\<lparr>lowerbound' := lowerbound' g1 - step' g1,
                              upperbound' := upperbound' g1 - step' g1\<rparr>;
                      (r, log2) = next_put nxt log1 sample
                  in (r, g2, log2)
           else
             let (r, log1) = next_put nxt log sample in (r, g1, log1)
      else
        let (r, log1) = next_put nxt log sample in (r, g, log1))"

text \<open>
  A stream driven through the statement: \<^verbatim>\<open>ScanQueryProcessor::put\<close> hands every
  sample to \<^verbatim>\<open>groupby_.put\<close>, and the producer stops at the first \<^verbatim>\<open>false\<close>.
\<close>

fun GroupByStatement_put_all ::
  "next_node \<Rightarrow> GroupByStatement \<Rightarrow> event list \<Rightarrow> aku_Sample list
     \<Rightarrow> bool \<times> GroupByStatement \<times> event list" where
  "GroupByStatement_put_all nxt g log [] = (True, g, log)"
| "GroupByStatement_put_all nxt g log (s # ss) =
     (case GroupByStatement_put nxt g log s of
        (ok, g1, log1) \<Rightarrow>
          if ok then GroupByStatement_put_all nxt g1 log1 ss else (False, g1, log1))"

subsection \<open>RandomSamplingNode (randomsamplingnode.cpp)\<close>

record RandomSamplingNode =
  buffer_size' :: u32
  samples' :: "aku_Sample list"

definition RandomSamplingNode_init :: "u32 \<Rightarrow> RandomSamplingNode" where
  "RandomSamplingNode_init buffer_size = \<lparr>buffer_size' = buffer_size, samples' = []\<rparr>"

text \<open>
  The sort key of \<^verbatim>\<open>flush\<close>: the predicate compares
  \<^verbatim>\<open>std::make_tuple(timestamp, paramid)\<close> lexicographically.
\<close>

definition sample_key :: "aku_Sample \<Rightarrow> u64 \<times> u64" where
  "sample_key s = (timestamp s, paramid s)"

text \<open>The \<^verbatim>\<open>for\<close> loop of \<^verbatim>\<open>flush\<close>: it returns at the first \<^verbatim>\<open>false\<close>.\<close>

fun flush_loop :: "next_node \<Rightarrow> event list \<Rightarrow> aku_Sample list \<Rightarrow> bool \<times> event list" where
  "flush_loop nxt log [] = (True, log)"
| "flush_loop nxt log (s # ss) =
     (case next_put nxt log s of
        (ok, log1) \<Rightarrow> if \<not> ok then (False, log1) else flush_loop nxt log1 ss)"

text \<open>
  \<^verbatim>\<open>RandomSamplingNode::flush\<close>: \<^verbatim>\<open>std::stable_sort\<close> in place (\<open>sort_key\<close> is a
  stable sort), the loop, and \<^verbatim>\<open>samples_.clear()\<close> only when the loop ran to its end.
\<close>

definition RandomSamplingNode_flush ::
  "next_node \<Rightarrow> RandomSamplingNode \<Rightarrow> event list
     \<Rightarrow> bool \<times> RandomSamplingNode \<times> event list" where
  "RandomSamplingNode_flush nxt n log =
     (let sorted_samples = sort_key sample_key (samples' n);
          (ok, log1) = flush_loop nxt log sorted_samples
      in if \<not> ok then (False, n\<lparr>samples' := sorted_samples\<rparr>, log1)
         else (True, n\<lparr>samples' := []\<rparr>, log1))"

definition RandomSamplingNode_complete ::
  "next_node \<Rightarrow> RandomSamplingNode \<Rightarrow> event list \<Rightarrow> RandomSamplingNode \<times> event list" where
  "RandomSamplingNode_complete nxt n log =
     (case RandomSamplingNode_flush nxt n log of
        (ok, n1, log1) \<Rightarrow> (n1, next_complete log1))"

text \<open>
  \<^verbatim>\<open>RandomSamplingNode::put\<close>. \<open>r\<close> is the value \<^verbatim>\<open>random_()\<close> returns if this call
  draws one. \<^verbatim>\<open>random_() % samples_.size()\<close> divides by zero when the buffer is empty
  and not below its capacity (capacity 0); the result is narrowed to \<^verbatim>\<open>uint32_t\<close>.
  \<^verbatim>\<open>samples_.at(ix)\<close> throws when \<open>ix\<close> is out of range.
\<close>

definition RandomSamplingNode_put ::
  "next_node \<Rightarrow> nat \<Rightarrow> RandomSamplingNode \<Rightarrow> event list \<Rightarrow> aku_Sample
     \<Rightarrow> failure + (bool \<times> RandomSamplingNode \<times> event list)" where
  "RandomSamplingNode_put nxt r n log sample =
     (if ptype (payload sample) = EMPTY then Inr (RandomSamplingNode_flush nxt n log)
      else if length (samples' n) < unat (buffer_size' n) then
        Inr (True, n\<lparr>samples' := samples' n @ [sample]\<rparr>, log)
      else if length (samples' n) = 0 then Inl DivisionByZero
      else
        let ix = (of_nat (r mod length (samples' n)) :: u32)
        in if ix < buffer_size' n then
             (if unat ix < length (samples' n)
              then Inr (True, n\<lparr>samples' := (samples' n)[unat ix := sample]\<rparr>, log)
              else Inl OutOfRange)
           else Inr (True, n, log))"

text \<open>
  A stream of samples, each paired with the random value its \<^verbatim>\<open>put\<close> would draw,
  pushed into the node; the producer stops at the first \<^verbatim>\<open>false\<close>.
\<close>

fun RandomSamplingNode_put_all ::
  "next_node \<Rightarrow> RandomSamplingNode \<Rightarrow> event list \<Rightarrow> (aku_Sample \<times> nat) list
     \<Rightarrow> failure + (bool \<times> RandomSamplingNode \<times> event list)" where
  "RandomSamplingNode_put_all nxt n log [] = Inr (True, n, log)"
| "RandomSamplingNode_put_all nxt n log (sr # srs) =
     (case RandomSamplingNode_put nxt (snd sr) n log (fst sr) of
        Inl e \<Rightarrow> Inl e
      | Inr (ok, n1, log1) \<Rightarrow>
          if ok then RandomSamplingNode_put_all nxt n1 log1 srs else Inr (False, n1, log1))"

subsection \<open>MetadataQueryProcessor (queryprocessor.cpp)\<close>

text \<open>
  The sample \<^verbatim>\<open>start\<close> builds for an id. \<open>s0\<close> is the uninitialised local
  \<^verbatim>\<open>aku_Sample s\<close> (its \<open>float64\<close> is never assigned), \<open>sz\<close> is
  \<^verbatim>\<open>sizeof(aku_Sample)\<close>.
\<close>

definition id_sample :: "aku_Sample \<Rightarrow> u16 \<Rightarrow> aku_ParamId \<Rightarrow> aku_Sample" where
  "id_sample s0 sz ident =
     s0\<lparr>paramid := ident, timestamp := 0,
        payload := (payload s0)\<lparr>ptype := PARAMID_BIT, psize := sz\<rparr>\<rparr>"

text \<open>\<^verbatim>\<open>MetadataQueryProcessor::start\<close>, over the ids \<^verbatim>\<open>filter_->get_ids()\<close> returned.\<close>

fun MetadataQueryProcessor_start ::
  "next_node \<Rightarrow> aku_Sample \<Rightarrow> u16 \<Rightarrow> aku_ParamId list \<Rightarrow> event list \<Rightarrow> bool \<times> event list" where
  "MetadataQueryProcessor_start root s0 sz [] log = (True, log)"
| "MetadataQueryProcessor_start root s0 sz (ident # ids) log =
     (case next_put root log (id_sample s0 sz ident) of
        (ok, log1) \<Rightarrow>
          if \<not> ok then (False, log1) else MetadataQueryProcessor_start root s0 sz ids log1)"

definition MetadataQueryProcessor_put :: "aku_Sample \<Rightarrow> event list \<Rightarrow> bool \<times> event list" where
  "MetadataQueryProcessor_put sample log = (False, log)"

definition MetadataQueryProcessor_stop :: "event list \<Rightarrow> event list" where
  "MetadataQueryProcessor_stop log = next_complete log"

subsection \<open>Limiter\<close>

text \<open>
  Modelled from the spec: \<^verbatim>\<open>query_processing/limiter.h\<close> is included by
  \<^verbatim>\<open>queryparser.cpp\<close> but is not among the sources. The spec says of
  \<^verbatim>\<open>Limiter(limit, offset)\<close>: it skips the first \<open>offset\<close> samples, passes up to
  \<open>limit\<close>, then reports \<open>false\<close> from \<open>put\<close> to stop upstream. \<open>counter'\<close> counts the
  samples received so far; a skipped sample is answered with \<open>true\<close>.
\<close>

record Limiter =
  limit' :: u64
  offset' :: u64
  counter' :: nat

definition Limiter_init :: "u64 \<Rightarrow> u64 \<Rightarrow> Limiter" where
  "Limiter_init limit offset = \<lparr>limit' = limit, offset' = offset, counter' = 0\<rparr>"

definition Limiter_put ::
  "next_node \<Rightarrow> Limiter \<Rightarrow> event list \<Rightarrow> aku_Sample \<Rightarrow> bool \<times> Limiter \<times> event list" where
  "Limiter_put nxt l log sample =
     (if counter' l < unat (offset' l) then
        (True, l\<lparr>counter' := counter' l + 1\<rparr>, log)
      else if counter' l < unat (offset' l) + unat (limit' l) then
        (case next_put nxt log sample of
           (ok, log1) \<Rightarrow> (ok, l\<lparr>counter' := counter' l + 1\<rparr>, log1))
      else (False, l, log))"

text \<open>A stream pushed into the limiter; the producer stops at the first \<open>false\<close>.\<close>

fun Limiter_put_all ::
  "next_node \<Rightarrow> Limiter \<Rightarrow> event list \<Rightarrow> aku_Sample list \<Rightarrow> bool \<times> Limiter \<times> event list" where
  "Limiter_put_all nxt l log [] = (True, l, log)"
| "Limiter_put_all nxt l log (s # ss) =
     (case Limiter_put nxt l log s of
        (ok, l1, log1) \<Rightarrow>
          if ok then Limiter_put_all nxt l1 log1 ss else (False, l1, log1))"

subsection \<open>parse_limit_offset and parse_processing_topology (queryparser.cpp)\<close>

text \<open>
  \<^verbatim>\<open>get_value<u64>()\<close> is boost's stream translator; it throws \<^verbatim>\<open>ptree_bad_data\<close> when
  the data is not a number. It is a parameter \<open>get_value_u64\<close> of the functions that call
  it, \<open>None\<close> standing for the exception.

  Both \<^verbatim>\<open>if\<close> statements of \<^verbatim>\<open>parse_limit_offset\<close> assign to \<^verbatim>\<open>limit\<close>;
  \<^verbatim>\<open>offset\<close> keeps its initial value \<^verbatim>\<open>0ul\<close>.
\<close>

definition parse_limit_offset ::
  "(string \<Rightarrow> u64 option) \<Rightarrow> ptree \<Rightarrow> failure + (u64 \<times> u64)" where
  "parse_limit_offset get_value_u64 pt =
     (let limit0 = (0 :: u64); offset = (0 :: u64) in
      case (case get_child_optional pt ''limit'' of
              None \<Rightarrow> Inr limit0
            | Some optlimit \<Rightarrow>
                (case get_value_u64 (data optlimit) of
                   None \<Rightarrow> Inl PtreeBadData
                 | Some v \<Rightarrow> Inr v)) of
        Inl e \<Rightarrow> Inl e
      | Inr limit1 \<Rightarrow>
          (case get_child_optional pt ''offset'' of
             None \<Rightarrow> Inr (limit1, offset)
           | Some optoffset \<Rightarrow>
               (case get_value_u64 (data optoffset) of
                  None \<Rightarrow> Inl PtreeBadData
                | Some v \<Rightarrow> Inr (v, offset))))"

text \<open>
  The nodes \<^verbatim>\<open>parse_processing_topology\<close> returns: the limiter, built as
  \<^verbatim>\<open>QP::Limiter(limoff.first, limoff.second, terminal)\<close>, and the terminal node.
\<close>

datatype Node = Limiter_node Limiter | TerminalNode

definition parse_processing_topology ::
  "(string \<Rightarrow> u64 option) \<Rightarrow> ptree \<Rightarrow> failure + (aku_Status \<times> Node list)" where
  "parse_processing_topology get_value_u64 pt =
     (case parse_limit_offset get_value_u64 pt of
        Inl e \<Rightarrow> Inl e
      | Inr limoff \<Rightarrow>
          Inr (AKU_SUCCESS,
               (if fst limoff \<noteq> 0 \<or> snd limoff \<noteq> 0
                then [Limiter_node (Limiter_init (fst limoff) (snd limoff))]
                else []) @ [TerminalNode]))"

subsection \<open>The series matcher, as the parser uses it\<close>

text \<open>
  \<^verbatim>\<open>seriesparser.cpp\<close> is not among the sources. The parser reaches a
  \<^verbatim>\<open>SeriesMatcher\<close> only through four member functions, so a matcher is the record of
  what they return: \<^verbatim>\<open>get_all_ids()\<close>; \<^verbatim>\<open>regex_match(expr)\<close>, the (name, id) pairs of the
  series that match; \<^verbatim>\<open>id2str(id)\<close>, the name, empty when the id is unknown;
  \<^verbatim>\<open>match(name)\<close>, the id, 0 when there is no such series.
\<close>

record SeriesMatcher =
  get_all_ids :: "aku_ParamId list"
  regex_match :: "string \<Rightarrow> (string \<times> aku_ParamId) list"
  id2str :: "aku_ParamId \<Rightarrow> string"
  match_name :: "string \<Rightarrow> aku_ParamId"

subsection \<open>SeriesRetreiver (queryparser.cpp)\<close>

text \<open>
  \<open>tags'\<close> is the \<^verbatim>\<open>std::map<std::string, std::vector<std::string>>\<close>: an association
  list kept in the order of its keys, which is the order the map is iterated in.
\<close>

record SeriesRetreiver =
  metric' :: "string list"
  tags' :: "(string \<times> string list) list"

definition SeriesRetreiver_init :: "string list \<Rightarrow> SeriesRetreiver" where
  "SeriesRetreiver_init metric = \<lparr>metric' = metric, tags' = []\<rparr>"

definition add_tag :: "string \<Rightarrow> string \<Rightarrow> SeriesRetreiver \<Rightarrow> aku_Status \<times> SeriesRetreiver" where
  "add_tag name val sr =
     (if metric' sr = [] then (AKU_EBAD_ARG, sr)
      else if name \<in> fst ` set (tags' sr) then (AKU_EBAD_ARG, sr)
      else (AKU_SUCCESS, sr\<lparr>tags' := insort_key fst (name, [val]) (tags' sr)\<rparr>))"

definition add_tags ::
  "string \<Rightarrow> string list \<Rightarrow> SeriesRetreiver \<Rightarrow> aku_Status \<times> SeriesRetreiver" where
  "add_tags name vals sr =
     (if metric' sr = [] then (AKU_EBAD_ARG, sr)
      else if name \<in> fst ` set (tags' sr) then (AKU_EBAD_ARG, sr)
      else (AKU_SUCCESS, sr\<lparr>tags' := insort_key fst (name, vals) (tags' sr)\<rparr>))"

text \<open>
  The regular expression \<^verbatim>\<open>(?:\s[\w\.\-]+=[\w\.\-]+)*\<close> for any run of tags; \<open>bsl\<close> is the
  backslash character.
\<close>

definition bsl :: string where
  "bsl = [CHR 0x5C]"

definition any_tags :: string where
  "any_tags =
     ''(?:'' @ bsl @ ''s['' @ bsl @ ''w'' @ bsl @ ''.'' @ bsl @ ''-]+=['' @
     bsl @ ''w'' @ bsl @ ''.'' @ bsl @ ''-]+)*''"

text \<open>Writing the items of a list with a separator between them.\<close>

fun join_with :: "string \<Rightarrow> string list \<Rightarrow> string" where
  "join_with sep [] = []"
| "join_with sep [x] = x"
| "join_with sep (x # y # zs) = x @ sep @ join_with sep (y # zs)"

text \<open>The group \<^verbatim>\<open>(?:...|...)\<close> written for one entry of \<open>tags'\<close>.\<close>

definition tag_regexp :: "string \<times> string list \<Rightarrow> string" where
  "tag_regexp kv =
     ''(?:'' @
     join_with ''|''
       (map (\<lambda>val. any_tags @ bsl @ ''s'' @ fst kv @ ''='' @ val @ any_tags) (snd kv)) @
     '')''"

text \<open>
  The inner loop of the join case for one metric: one id per id of the first metric.
  \<^verbatim>\<open>id2str\<close> returning an empty name is \<^verbatim>\<open>AKU_PANIC\<close>. The tags are the name from
  position \<^verbatim>\<open>first_metric.size()\<close> on; a name shorter than that makes the iterator
  range of \<^verbatim>\<open>series_tags\<close> invalid.
\<close>

fun secondary_ids ::
  "SeriesMatcher \<Rightarrow> string \<Rightarrow> string \<Rightarrow> aku_ParamId list \<Rightarrow> failure + aku_ParamId list" where
  "secondary_ids matcher first_metric metric [] = Inr []"
| "secondary_ids matcher first_metric metric (ident # ids) =
     (let name = id2str matcher ident in
      if length name = 0 then Inl (Panic ''Matcher data is broken'')
      else if length name < length first_metric then Inl OutOfRange
      else
        let series_tags = drop (length first_metric) name;
            alt_name = metric @ series_tags;
            sid = match_name matcher alt_name
        in case secondary_ids matcher first_metric metric ids of
             Inl e \<Rightarrow> Inl e
           | Inr rest \<Rightarrow> Inr (sid # rest))"

text \<open>The outer loop over \<^verbatim>\<open>tail\<close>: what is appended to \<^verbatim>\<open>full\<close>.\<close>

fun tail_ids ::
  "SeriesMatcher \<Rightarrow> string \<Rightarrow> string list \<Rightarrow> aku_ParamId list \<Rightarrow> failure + aku_ParamId list" where
  "tail_ids matcher first_metric [] ids = Inr []"
| "tail_ids matcher first_metric (metric # tail) ids =
     (case secondary_ids matcher first_metric metric ids of
        Inl e \<Rightarrow> Inl e
      | Inr col \<Rightarrow>
          (case tail_ids matcher first_metric tail ids of
             Inl e \<Rightarrow> Inl e
           | Inr rest \<Rightarrow> Inr (col @ rest)))"

definition extract_ids ::
  "SeriesRetreiver \<Rightarrow> SeriesMatcher \<Rightarrow> failure + (aku_Status \<times> aku_ParamId list)" where
  "extract_ids sr matcher =
     (if metric' sr = [] then Inr (AKU_SUCCESS, get_all_ids matcher)
      else
        let first_metric = hd (metric' sr);
            ids = (if tags' sr = [] then
                     map snd (regex_match matcher (first_metric @ any_tags))
                   else
                     map snd (regex_match matcher
                                (first_metric @ concat (map tag_regexp (tags' sr)))))
        in if 1 < length (metric' sr) then
             (case tail_ids matcher first_metric (tl (metric' sr)) ids of
                Inl e \<Rightarrow> Inl e
              | Inr appended \<Rightarrow> Inr (AKU_SUCCESS, ids @ appended))
           else Inr (AKU_SUCCESS, ids))"

subsection \<open>parse_where_clause (queryparser.cpp)\<close>

text \<open>
  One iteration of the loop over the items of \<^verbatim>\<open>where\<close>. The status \<^verbatim>\<open>add_tags\<close> and
  \<^verbatim>\<open>add_tag\<close> return is not looked at.
\<close>

definition where_item :: "SeriesRetreiver \<Rightarrow> string \<times> ptree \<Rightarrow> SeriesRetreiver" where
  "where_item retreiver item =
     (let tag = fst item; idslist = snd item in
      if \<not> empty_ptree idslist then
        let tag_values = map (\<lambda>idnode. get_value_string (snd idnode)) (children idslist)
        in snd (add_tags tag tag_values retreiver)
      else snd (add_tag tag (get_value_string idslist) retreiver))"

definition parse_where_clause ::
  "ptree \<Rightarrow> string list \<Rightarrow> SeriesMatcher \<Rightarrow> failure + (aku_Status \<times> aku_ParamId list)" where
  "parse_where_clause pt metrics matcher =
     (case get_child_optional pt ''where'' of
        Some where_node \<Rightarrow>
          if metrics = [] then Inr (AKU_EQUERY_PARSING_ERROR, [])
          else
            let retreiver = foldl where_item (SeriesRetreiver_init metrics) (children where_node)
            in extract_ids retreiver matcher
      | None \<Rightarrow>
          if metrics \<noteq> [] then extract_ids (SeriesRetreiver_init metrics) matcher
          else extract_ids (SeriesRetreiver_init []) matcher)"

subsection \<open>What the query parser takes from files that are not among the sources\<close>

datatype OrderBy = SERIES | TIME

text \<open>
  A \<^verbatim>\<open>std::shared_ptr<SeriesMatcher>\<close> the parser stores in the request: \<open>None\<close> is the
  null pointer, \<open>Some names\<close> a matcher holding the (name, id) pairs added to it, in the
  order of the \<^verbatim>\<open>_add\<close> calls.
\<close>

type_synonym matcher_ptr = "(string \<times> aku_ParamId) list option"

text \<open>
  A \<^verbatim>\<open>GroupByTag\<close> object, as far as the parser reads it: \<^verbatim>\<open>get_mapping()\<close> and
  \<^verbatim>\<open>local_matcher_\<close>.
\<close>

record GroupByTag =
  get_mapping :: "aku_ParamId \<rightharpoonup> aku_ParamId"
  local_matcher' :: "(string \<times> aku_ParamId) list"

text \<open>
  The functions and values of absent files the parser depends on, as parameters:
  \<^verbatim>\<open>Aggregation::from_string\<close> and \<^verbatim>\<open>Aggregation::to_string\<close> (\<open>'fn\<close> is the enum
  \<^verbatim>\<open>AggregationFunction\<close>); \<^verbatim>\<open>DateTimeUtil::parse_duration\<close> and
  \<^verbatim>\<open>DateTimeUtil::from_iso_string\<close>, \<open>None\<close> standing for the exception they throw on
  malformed text; the constructor of \<^verbatim>\<open>GroupByTag\<close>; the enumerator of \<^verbatim>\<open>OrderBy\<close>
  whose value is 0, which is what \<^verbatim>\<open>ReshapeRequest result = {}\<close> holds; and the
  indeterminate value of the member \<^verbatim>\<open>step\<close> of the local \<^verbatim>\<open>GroupAggregate result\<close>,
  which has no initialiser.
\<close>

record 'fn externals =
  from_string :: "string \<Rightarrow> aku_Status \<times> 'fn"
  to_string :: "'fn \<Rightarrow> string"
  parse_duration :: "string \<Rightarrow> aku_Duration option"
  from_iso_string :: "string \<Rightarrow> aku_Timestamp option"
  new_GroupByTag :: "SeriesMatcher \<Rightarrow> string \<Rightarrow> string list \<Rightarrow> GroupByTag"
  OrderBy_zero :: OrderBy
  uninit_step :: aku_Duration

text \<open>
  \<^verbatim>\<open>ReshapeRequest\<close>: the members \<^verbatim>\<open>select.begin\<close>, \<^verbatim>\<open>agg.enabled\<close>, ... are the fields
  \<open>select_begin\<close>, \<open>agg_enabled\<close>, ...; a \<^verbatim>\<open>Column\<close> is its list of ids.
\<close>

record 'fn ReshapeRequest =
  select_begin :: aku_Timestamp
  select_end :: aku_Timestamp
  select_columns :: "aku_ParamId list list"
  select_matcher :: matcher_ptr
  agg_enabled :: bool
  agg_func :: "'fn list"
  agg_step :: aku_Duration
  order_by :: OrderBy
  group_by_enabled :: bool
  group_by_transient_map :: "aku_ParamId \<rightharpoonup> aku_ParamId"
  group_by_matcher :: matcher_ptr

text \<open>\<^verbatim>\<open>ReshapeRequest result = {}\<close>: every member value-initialised.\<close>

definition ReshapeRequest_zero :: "'fn externals \<Rightarrow> 'fn ReshapeRequest" where
  "ReshapeRequest_zero E =
     \<lparr>select_begin = 0, select_end = 0, select_columns = [], select_matcher = None,
      agg_enabled = False, agg_func = [], agg_step = 0, order_by = OrderBy_zero E,
      group_by_enabled = False, group_by_transient_map = Map.empty,
      group_by_matcher = None\<rparr>"

text \<open>
  \<^verbatim>\<open>get_value_optional<std::string>()\<close>: the translator for strings is the identity, so
  the optional always holds the node's data.
\<close>

definition get_value_optional_string :: "ptree \<Rightarrow> string option" where
  "get_value_optional_string pt = Some (data pt)"

subsection \<open>Statement parsers (queryparser.cpp)\<close>

definition parse_join_loop :: "string list \<Rightarrow> (string \<times> ptree) list \<Rightarrow> bool \<times> string list" where
  "parse_join_loop acc items =
     foldl (\<lambda>st item.
              if \<not> fst st then st
              else case get_value_optional_string (snd item) of
                     Some v \<Rightarrow> (True, snd st @ [v])
                   | None \<Rightarrow> (False, snd st))
           (True, acc) items"

text \<open>
  \<^verbatim>\<open>parse_join_stmt\<close>; the first component of \<open>parse_join_loop\<close> is false once the loop
  has returned \<^verbatim>\<open>AKU_EQUERY_PARSING_ERROR\<close>.
\<close>

definition parse_join_stmt :: "ptree \<Rightarrow> aku_Status \<times> string list" where
  "parse_join_stmt pt =
     (case (case get_child_optional pt ''join'' of
              Some join \<Rightarrow> parse_join_loop [] (children join)
            | None \<Rightarrow> (True, [])) of
        (ok, result) \<Rightarrow>
          if \<not> ok then (AKU_EQUERY_PARSING_ERROR, result)
          else if result = [] then (AKU_EQUERY_PARSING_ERROR, result)
          else (AKU_SUCCESS, result))"

text \<open>
  \<^verbatim>\<open>parse_aggregate_stmt\<close>: the loop returns in its first iteration.
  \<^verbatim>\<open>get_value<std::string>("cnt")\<close> is the node's data.
\<close>

definition parse_aggregate_stmt :: "ptree \<Rightarrow> aku_Status \<times> string \<times> string" where
  "parse_aggregate_stmt pt =
     (case get_child_optional pt ''aggregate'' of
        Some aggregate \<Rightarrow>
          (case children aggregate of
             kv # rest \<Rightarrow> (AKU_SUCCESS, fst kv, get_value_string (snd kv))
           | [] \<Rightarrow> (AKU_EQUERY_PARSING_ERROR, [], []))
      | None \<Rightarrow> (AKU_EQUERY_PARSING_ERROR, [], []))"

record 'fn GroupAggregate =
  ga_metric :: string
  ga_func :: "'fn list"
  ga_step :: aku_Duration

text \<open>
  The loop over the children of \<^verbatim>\<open>func\<close>: (\<^verbatim>\<open>error\<close>, \<^verbatim>\<open>result.func\<close>, \<^verbatim>\<open>n\<close>) when it
  is left.
\<close>

fun func_loop ::
  "'fn externals \<Rightarrow> 'fn list \<Rightarrow> nat \<Rightarrow> (string \<times> ptree) list \<Rightarrow> bool \<times> 'fn list \<times> nat" where
  "func_loop E funcs n [] = (False, funcs, n)"
| "func_loop E funcs n (child # rest) =
     (case get_value_optional_string (snd child) of
        Some fn \<Rightarrow>
          (case from_string E fn of
             (status, f) \<Rightarrow>
               if status = AKU_SUCCESS then func_loop E (funcs @ [f]) (n + 1) rest
               else (True, funcs, n))
      | None \<Rightarrow> func_loop E funcs n rest)"

text \<open>
  The loop of \<^verbatim>\<open>parse_group_aggregate_stmt\<close> over the children of
  \<^verbatim>\<open>group-aggregate\<close>; the state is \<^verbatim>\<open>components\<close> and \<^verbatim>\<open>result\<close>, and \<^verbatim>\<open>break\<close>
  returns the state as it is. \<^verbatim>\<open>aggregate->get_child("func")\<close> is the first child with
  that key; it exists whenever the branch is entered.
\<close>

fun group_aggregate_loop ::
  "'fn externals \<Rightarrow> ptree \<Rightarrow> (bool \<times> bool \<times> bool) \<times> 'fn GroupAggregate
     \<Rightarrow> (string \<times> ptree) list \<Rightarrow> (bool \<times> bool \<times> bool) \<times> 'fn GroupAggregate" where
  "group_aggregate_loop E aggregate st [] = st"
| "group_aggregate_loop E aggregate ((c0, c1, c2), result) (kv # kvs) =
     (let tag_name = fst kv; val = get_value_optional_string (snd kv) in
      if tag_name = ''step'' then
        (if c0 then ((c0, c1, c2), result)
         else case val of
                None \<Rightarrow> ((c0, c1, c2), result)
              | Some v \<Rightarrow>
                  (case parse_duration E v of
                     Some d \<Rightarrow>
                       group_aggregate_loop E aggregate
                         ((True, c1, c2), result\<lparr>ga_step := d\<rparr>) kvs
                   | None \<Rightarrow> group_aggregate_loop E aggregate ((c0, c1, c2), result) kvs))
      else if tag_name = ''metric'' then
        (case val of
           None \<Rightarrow> ((c0, c1, c2), result)
         | Some v \<Rightarrow>
             if c1 then ((c0, c1, c2), result)
             else group_aggregate_loop E aggregate
                    ((c0, True, c2), result\<lparr>ga_metric := v\<rparr>) kvs)
      else if tag_name = ''func'' then
        (if c2 then ((c0, c1, c2), result)
         else
           case func_loop E (ga_func result) 0
                  (case get_child_optional aggregate ''func'' of
                     Some f \<Rightarrow> children f | None \<Rightarrow> []) of
             (error, funcs, n) \<Rightarrow>
               if error then ((c0, c1, c2), result\<lparr>ga_func := funcs\<rparr>)
               else group_aggregate_loop E aggregate
                      ((c0, c1, n \<noteq> 0), result\<lparr>ga_func := funcs\<rparr>) kvs)
      else group_aggregate_loop E aggregate ((c0, c1, c2), result) kvs)"

definition parse_group_aggregate_stmt ::
  "'fn externals \<Rightarrow> ptree \<Rightarrow> aku_Status \<times> 'fn GroupAggregate" where
  "parse_group_aggregate_stmt E pt =
     (let result0 = \<lparr>ga_metric = [], ga_func = [], ga_step = uninit_step E\<rparr>;
          components0 = (False, False, False)
      in case (case get_child_optional pt ''group-aggregate'' of
                 Some aggregate \<Rightarrow>
                   group_aggregate_loop E aggregate (components0, result0) (children aggregate)
               | None \<Rightarrow> (components0, result0)) of
           ((c0, c1, c2), result) \<Rightarrow>
             if c0 \<and> c1 \<and> c2 then (AKU_SUCCESS, result)
             else (AKU_EQUERY_PARSING_ERROR, result))"

definition parse_orderby :: "ptree \<Rightarrow> aku_Status \<times> OrderBy" where
  "parse_orderby pt =
     (case get_child_optional pt ''order-by'' of
        Some orderby \<Rightarrow>
          (let stringval = get_value_string orderby in
           if stringval = ''time'' then (AKU_SUCCESS, TIME)
           else if stringval = ''series'' then (AKU_SUCCESS, SERIES)
           else (AKU_EQUERY_PARSING_ERROR, TIME))
      | None \<Rightarrow> (AKU_SUCCESS, TIME))"

definition parse_groupby_loop :: "string list \<Rightarrow> (string \<times> ptree) list \<Rightarrow> bool \<times> string list" where
  "parse_groupby_loop acc items =
     foldl (\<lambda>st item.
              if \<not> fst st then st
              else case get_value_optional_string (snd item) of
                     Some v \<Rightarrow> (True, snd st @ [v])
                   | None \<Rightarrow> (False, snd st))
           (True, acc) items"

definition parse_groupby :: "ptree \<Rightarrow> aku_Status \<times> string list" where
  "parse_groupby pt =
     (case (case get_child_optional pt ''group-by'' of
              Some groupby \<Rightarrow> parse_groupby_loop [] (children groupby)
            | None \<Rightarrow> (True, [])) of
        (ok, tags) \<Rightarrow>
          if \<not> ok then (AKU_EQUERY_PARSING_ERROR, tags) else (AKU_SUCCESS, tags))"

text \<open>
  One iteration of the loop of \<^verbatim>\<open>parse_range_timestamp\<close>; the state is
  (\<^verbatim>\<open>begin\<close>, \<^verbatim>\<open>begin_set\<close>, \<^verbatim>\<open>end\<close>, \<^verbatim>\<open>end_set\<close>).
\<close>

definition range_item ::
  "'fn externals \<Rightarrow> aku_Timestamp \<times> bool \<times> aku_Timestamp \<times> bool \<Rightarrow> string \<times> ptree
     \<Rightarrow> aku_Timestamp \<times> bool \<times> aku_Timestamp \<times> bool" where
  "range_item E st child =
     (case st of
        (begin_ts, begin_set, end_ts, end_set) \<Rightarrow>
          if fst child = ''from'' then
            (case from_iso_string E (get_value_string (snd child)) of
               Some t \<Rightarrow> (t, True, end_ts, end_set)
             | None \<Rightarrow> st)
          else if fst child = ''to'' then
            (case from_iso_string E (get_value_string (snd child)) of
               Some t \<Rightarrow> (begin_ts, begin_set, t, True)
             | None \<Rightarrow> st)
          else st)"

definition parse_range_timestamp ::
  "'fn externals \<Rightarrow> ptree \<Rightarrow> aku_Status \<times> aku_Timestamp \<times> aku_Timestamp" where
  "parse_range_timestamp E pt =
     (case (case get_child_optional pt ''range'' of
              Some range_node \<Rightarrow>
                foldl (range_item E) (0, False, 0, False) (children range_node)
            | None \<Rightarrow> (0, False, 0, False)) of
        (begin_ts, begin_set, end_ts, end_set) \<Rightarrow>
          if \<not> begin_set \<or> \<not> end_set then (AKU_EQUERY_PARSING_ERROR, begin_ts, end_ts)
          else (AKU_SUCCESS, begin_ts, end_ts))"

subsection \<open>Query parsers (queryparser.cpp)\<close>

text \<open>
  \<^verbatim>\<open>groupbytag\<close>: the null pointer unless the query names group-by tags.
\<close>

definition make_groupbytag ::
  "'fn externals \<Rightarrow> SeriesMatcher \<Rightarrow> string \<Rightarrow> string list \<Rightarrow> GroupByTag option" where
  "make_groupbytag E matcher metric tags =
     (if tags \<noteq> [] then Some (new_GroupByTag E matcher metric tags) else None)"

text \<open>
  The last statements of the select, aggregate and group-aggregate parsers:
  \<^verbatim>\<open>result.group_by.enabled = static_cast<bool>(groupbytag)\<close> and, for a non-null
  pointer, the transient map and the matcher.
\<close>

definition set_group_by :: "GroupByTag option \<Rightarrow> 'fn ReshapeRequest \<Rightarrow> 'fn ReshapeRequest" where
  "set_group_by groupbytag result =
     (case groupbytag of
        None \<Rightarrow> result\<lparr>group_by_enabled := False\<rparr>
      | Some g \<Rightarrow>
          result\<lparr>group_by_enabled := True,
                 group_by_transient_map := get_mapping g,
                 select_matcher := Some (local_matcher' g)\<rparr>)"

definition parse_aggregate_query ::
  "'fn externals \<Rightarrow> ptree \<Rightarrow> SeriesMatcher \<Rightarrow> failure + (aku_Status \<times> 'fn ReshapeRequest)" where
  "parse_aggregate_query E pt matcher =
     (let result = ReshapeRequest_zero E; status = validate_query pt in
      if status \<noteq> AKU_SUCCESS then Inr (status, result)
      else case parse_aggregate_stmt pt of (status, metric, aggfun) \<Rightarrow>
      if status \<noteq> AKU_SUCCESS then Inr (status, result)
      else case from_string E aggfun of (status, func) \<Rightarrow>
      if status \<noteq> AKU_SUCCESS then Inr (status, result)
      else case parse_groupby pt of (status, tags) \<Rightarrow>
      if status \<noteq> AKU_SUCCESS then Inr (status, result)
      else
        let groupbytag = make_groupbytag E matcher metric tags in
        case get_child_optional pt ''order-by'' of
          Some orderby \<Rightarrow> Inr (AKU_EQUERY_PARSING_ERROR, result)
        | None \<Rightarrow>
      (case parse_where_clause pt [metric] matcher of
         Inl e \<Rightarrow> Inl e
       | Inr (status, ids) \<Rightarrow>
      if status \<noteq> AKU_SUCCESS then Inr (status, result)
      else case parse_range_timestamp E pt of (status, ts_begin, ts_end) \<Rightarrow>
      if status \<noteq> AKU_SUCCESS then Inr (status, result)
      else
        Inr (AKU_SUCCESS,
             set_group_by groupbytag
               (result\<lparr>agg_enabled := True, agg_func := [func],
                       select_begin := ts_begin, select_end := ts_end,
                       select_columns := select_columns result @ [ids],
                       order_by := SERIES\<rparr>))))"

text \<open>\<^verbatim>\<open>boost::algorithm::starts_with\<close>.\<close>

definition starts_with :: "string \<Rightarrow> string \<Rightarrow> bool" where
  "starts_with name pre = (take (length pre) name = pre)"

text \<open>
  The loop of \<^verbatim>\<open>init_matcher_in_group_aggregate\<close> and of
  \<^verbatim>\<open>init_matcher_in_join_query\<close>: for every id the new name is \<open>head\<close> followed by the
  tags of the old name, and (name, id) is added to the new matcher. \<open>None\<close> is the return
  of \<^verbatim>\<open>AKU_EBAD_DATA\<close> for a name that does not start with the metric.
\<close>

fun display_names ::
  "SeriesMatcher \<Rightarrow> string \<Rightarrow> string \<Rightarrow> aku_ParamId list \<Rightarrow> (string \<times> aku_ParamId) list option" where
  "display_names global_matcher metric_name head [] = Some []"
| "display_names global_matcher metric_name head (ident # ids) =
     (let name = id2str global_matcher ident in
      if \<not> starts_with name metric_name then None
      else
        let tags = drop (length metric_name) name in
        case display_names global_matcher metric_name head ids of
          None \<Rightarrow> None
        | Some rest \<Rightarrow> Some ((head @ tags, ident) # rest))"

text \<open>\<^verbatim>\<open>columns.at(0)\<close> throws on a request without columns.\<close>

definition init_matcher_in_group_aggregate ::
  "'fn externals \<Rightarrow> 'fn ReshapeRequest \<Rightarrow> SeriesMatcher \<Rightarrow> string \<Rightarrow> 'fn list
     \<Rightarrow> failure + (aku_Status \<times> 'fn ReshapeRequest)" where
  "init_matcher_in_group_aggregate E req global_matcher metric_name func_names =
     (case select_columns req of
        [] \<Rightarrow> Inl OutOfRange
      | ids # cols \<Rightarrow>
          (case display_names global_matcher metric_name
                  (join_with ''|'' (map (\<lambda>f. metric_name @ '':'' @ to_string E f) func_names))
                  ids of
             None \<Rightarrow> Inr (AKU_EBAD_DATA, req)
           | Some names \<Rightarrow> Inr (AKU_SUCCESS, req\<lparr>select_matcher := Some names\<rparr>)))"

text \<open>
  \<^verbatim>\<open>parse_group_aggregate_query\<close>. The two guards after the statement parser return the
  variable \<^verbatim>\<open>status\<close>, which holds what \<^verbatim>\<open>parse_group_aggregate_stmt\<close> returned. The
  status of \<^verbatim>\<open>init_matcher_in_group_aggregate\<close> is assigned and not read.
\<close>

definition parse_group_aggregate_query ::
  "'fn externals \<Rightarrow> ptree \<Rightarrow> SeriesMatcher \<Rightarrow> failure + (aku_Status \<times> 'fn ReshapeRequest)" where
  "parse_group_aggregate_query E pt matcher =
     (let result = ReshapeRequest_zero E; status = validate_query pt in
      if status \<noteq> AKU_SUCCESS then Inr (status, result)
      else case parse_group_aggregate_stmt E pt of (status, gagg) \<Rightarrow>
      if status \<noteq> AKU_SUCCESS then Inr (status, result)
      else if ga_func gagg = [] then Inr (status, result)
      else if ga_step gagg = 0 then Inr (status, result)
      else case parse_groupby pt of (status, tags) \<Rightarrow>
      if status \<noteq> AKU_SUCCESS then Inr (status, result)
      else
        let groupbytag = make_groupbytag E matcher (ga_metric gagg) tags in
        case parse_where_clause pt [ga_metric gagg] matcher of
          Inl e \<Rightarrow> Inl e
        | Inr (status, ids) \<Rightarrow>
      if status \<noteq> AKU_SUCCESS then Inr (status, result)
      else case parse_range_timestamp E pt of (status, ts_begin, ts_end) \<Rightarrow>
      if status \<noteq> AKU_SUCCESS then Inr (status, result)
      else
        let result1 = result\<lparr>agg_enabled := True, agg_func := ga_func gagg,
                              agg_step := ga_step gagg,
                              select_begin := ts_begin, select_end := ts_end,
                              select_columns := select_columns result @ [ids]\<rparr>
        in case parse_orderby pt of (status, order) \<Rightarrow>
        let result2 = result1\<lparr>order_by := order\<rparr> in
        if status \<noteq> AKU_SUCCESS then Inr (status, result2)
        else
          case init_matcher_in_group_aggregate E result2 matcher (ga_metric gagg) (ga_func gagg) of
            Inl e \<Rightarrow> Inl e
          | Inr (status, result3) \<Rightarrow> Inr (AKU_SUCCESS, set_group_by groupbytag result3))"

definition init_matcher_in_join_query ::
  "'fn ReshapeRequest \<Rightarrow> SeriesMatcher \<Rightarrow> string list \<Rightarrow> aku_Status \<times> 'fn ReshapeRequest" where
  "init_matcher_in_join_query req global_matcher metric_names =
     (if length (select_columns req) < 2 then (AKU_EBAD_ARG, req)
      else if length (select_columns req) \<noteq> length metric_names then (AKU_EBAD_ARG, req)
      else
        case display_names global_matcher (hd metric_names) (join_with ''|'' metric_names)
               (hd (select_columns req)) of
          None \<Rightarrow> (AKU_EBAD_DATA, req)
        | Some names \<Rightarrow> (AKU_SUCCESS, req\<lparr>select_matcher := Some names\<rparr>))"

text \<open>
  Lines 893 to 906 of \<^verbatim>\<open>parse_join_query\<close>: the ids are cut into \<open>ncolumns\<close> columns
  of \<open>nentries\<close> ids each. \<^verbatim>\<open>ids.size() / ncolumns\<close> divides by zero for no columns; a
  remainder is \<^verbatim>\<open>AKU_PANIC\<close> (the message is written here without its backquotes).
\<close>

definition join_columns :: "nat \<Rightarrow> aku_ParamId list \<Rightarrow> failure + aku_ParamId list list" where
  "join_columns ncolumns ids =
     (if ncolumns = 0 then Inl DivisionByZero
      else
        let nentries = length ids div ncolumns in
        if length ids mod ncolumns \<noteq> 0
        then Inl (Panic ''Invalid where statement processing results'')
        else Inr (map (\<lambda>i. take nentries (drop (i * nentries) ids)) [0..<ncolumns]))"

definition parse_join_query ::
  "'fn externals \<Rightarrow> ptree \<Rightarrow> SeriesMatcher \<Rightarrow> failure + (aku_Status \<times> 'fn ReshapeRequest)" where
  "parse_join_query E pt matcher =
     (let result = ReshapeRequest_zero E; status = validate_query pt in
      if status \<noteq> AKU_SUCCESS then Inr (status, result)
      else case parse_join_stmt pt of (status, metrics) \<Rightarrow>
      if status \<noteq> AKU_SUCCESS then Inr (status, result)
      else case parse_orderby pt of (status, order) \<Rightarrow>
      if status \<noteq> AKU_SUCCESS then Inr (status, result)
      else
        let result1 = result\<lparr>order_by := order\<rparr> in
        case parse_where_clause pt metrics matcher of
          Inl e \<Rightarrow> Inl e
        | Inr (status, ids) \<Rightarrow>
      if status \<noteq> AKU_SUCCESS then Inr (status, result1)
      else case parse_range_timestamp E pt of (status, ts_begin, ts_end) \<Rightarrow>
      if status \<noteq> AKU_SUCCESS then Inr (status, result1)
      else
        let result2 = result1\<lparr>group_by_enabled := False, agg_enabled := False,
                               select_begin := ts_begin, select_end := ts_end\<rparr>
        in case join_columns (length metrics) ids of
             Inl e \<Rightarrow> Inl e
           | Inr columns \<Rightarrow>
               let result3 = result2\<lparr>select_columns := select_columns result2 @ columns\<rparr>
               in Inr (init_matcher_in_join_query result3 matcher metrics))"

subsection \<open>create_aggregate (queryplan.cpp)\<close>

datatype Tier1Operator = SCAN_RANGE | AGGREGATE_RANGE | GROUP_AGGREGATE_RANGE

datatype Tier2Operator =
    CHAIN_SERIES | MERGE_TIME_ORDER | MERGE_SERIES_ORDER
  | AGGREGATE | AGGREGATE_COMBINE
  | SERIES_ORDER_AGGREGATE_MATERIALIZER | TIME_ORDER_AGGREGATE_MATERIALIZER
  | MERGE_JOIN_SERIES_ORDER | MERGE_JOIN_TIME_ORDER

datatype stage_op = tier1 Tier1Operator | tier2 Tier2Operator

text \<open>
  The members of \<^verbatim>\<open>QueryPlanStage\<close> that \<^verbatim>\<open>create_aggregate\<close> assigns;
  \<^verbatim>\<open>opt_func_\<close> of the first stage is left as constructed, empty.
\<close>

record 'fn QueryPlanStage =
  op' :: stage_op
  tier' :: nat
  opt_ids' :: "aku_ParamId list"
  opt_matcher' :: matcher_ptr
  time_range' :: "aku_Timestamp \<times> aku_Timestamp"
  opt_func' :: "'fn list"

text \<open>
  \<^verbatim>\<open>create_aggregate\<close>: \<^verbatim>\<open>AKU_PANIC("Invalid request")\<close> for a request ordered by time;
  \<^verbatim>\<open>columns.at(0)\<close> throws on a request without columns.
\<close>

definition create_aggregate :: "'fn ReshapeRequest \<Rightarrow> failure + 'fn QueryPlanStage list" where
  "create_aggregate req =
     (if order_by req = TIME then Inl (Panic ''Invalid request'')
      else
        case select_columns req of
          [] \<Rightarrow> Inl OutOfRange
        | tier1ids # cols \<Rightarrow>
            let begin_ts = select_begin req; end_ts = select_end req;
                t1stage = \<lparr>op' = tier1 AGGREGATE_RANGE, tier' = 1, opt_ids' = tier1ids,
                           opt_matcher' = select_matcher req,
                           time_range' = (begin_ts, end_ts), opt_func' = []\<rparr>;
                t2stage =
                  (if group_by_enabled req then
                     \<lparr>op' = tier2 AGGREGATE_COMBINE, tier' = 2,
                      opt_ids' = List.map_filter (group_by_transient_map req) tier1ids,
                      opt_matcher' = group_by_matcher req,
                      time_range' = (begin_ts, end_ts), opt_func' = agg_func req\<rparr>
                   else
                     \<lparr>op' = tier2 AGGREGATE, tier' = 2, opt_ids' = tier1ids,
                      opt_matcher' = select_matcher req,
                      time_range' = (begin_ts, end_ts), opt_func' = agg_func req\<rparr>)
            in Inr [t1stage, t2stage])"

subsection \<open>Auxiliary definitions for the statements\<close>

text \<open>A sample that carries a value, for concrete inputs.\<close>

definition data_sample :: "aku_Timestamp \<Rightarrow> aku_ParamId \<Rightarrow> aku_Sample" where
  "data_sample ts ident =
     \<lparr>timestamp = ts, paramid = ident,
      payload = \<lparr>float64 = 0, psize = 0, ptype = FLOAT_BIT\<rparr>\<rparr>"

text \<open>
  The number of markers \<^verbatim>\<open>GroupByStatement::put\<close> emits on timestamps \<open>ts\<close> once the
  first sample has set the bounds: \<open>L\<close> is the lower bound, \<open>s\<close> the step, and a sample at
  or above \<open>L + s\<close> emits one marker and moves the bounds by one step.
\<close>

fun markers_from :: "nat \<Rightarrow> nat \<Rightarrow> nat list \<Rightarrow> nat" where
  "markers_from s L [] = 0"
| "markers_from s L (t # ts) =
     (if L + s \<le> t then Suc (markers_from s (L + s) ts) else markers_from s L ts)"

text \<open>
  No sample lies more than one bucket (\<open>t div s\<close>) after the sample before it.
\<close>

fun no_bucket_skipped :: "nat \<Rightarrow> nat list \<Rightarrow> bool" where
  "no_bucket_skipped s (a # b # ts) =
     (b div s \<le> a div s + 1 \<and> no_bucket_skipped s (b # ts))"
| "no_bucket_skipped s ts = True"

text \<open>
  A reader for \<^verbatim>\<open>get_value<u64>()\<close> on concrete documents: plain decimal digit
  strings below \<open>2 ^ 64\<close>, everything else is refused.
\<close>

definition digit_of :: "char \<Rightarrow> nat option" where
  "digit_of c = (let n = (of_char c :: nat) in if 48 \<le> n \<and> n \<le> 57 then Some (n - 48) else None)"

fun decimal_nat :: "nat \<Rightarrow> string \<Rightarrow> nat option" where
  "decimal_nat acc [] = Some acc"
| "decimal_nat acc (c # cs) =
     (case digit_of c of None \<Rightarrow> None | Some d \<Rightarrow> decimal_nat (10 * acc + d) cs)"

definition decimal_u64 :: "string \<Rightarrow> u64 option" where
  "decimal_u64 s =
     (if s = [] then None
      else case decimal_nat 0 s of
             None \<Rightarrow> None
           | Some v \<Rightarrow> if v < 2 ^ 64 then Some (of_nat v) else None)"

text \<open>The values an item of \<^verbatim>\<open>where\<close> gives for its tag: a list, or a single value.\<close>

definition item_values :: "ptree \<Rightarrow> string list" where
  "item_values idslist =
     (if \<not> empty_ptree idslist
      then map (\<lambda>idnode. get_value_string (snd idnode)) (children idslist)
      else [get_value_string idslist])"

text \<open>
  The ids \<^verbatim>\<open>extract_ids\<close> finds for the first metric: the result of the regular
  expression it builds, without or with tags.
\<close>

definition base_ids :: "SeriesRetreiver \<Rightarrow> SeriesMatcher \<Rightarrow> aku_ParamId list" where
  "base_ids sr matcher =
     (if tags' sr = [] then map snd (regex_match matcher (hd (metric' sr) @ any_tags))
      else map snd (regex_match matcher
                      (hd (metric' sr) @ concat (map tag_regexp (tags' sr)))))"

text \<open>
  A concrete instance of the absent parts, for concrete inputs: four aggregation function
  names, an unknown name being reported as a parse error; two durations; two timestamps.
\<close>

definition demo_externals :: "string externals" where
  "demo_externals =
     \<lparr>from_string = (\<lambda>s. if s \<in> set [''min'', ''max'', ''cnt'', ''sum'']
                           then (AKU_SUCCESS, s) else (AKU_EQUERY_PARSING_ERROR, s)),
      to_string = (\<lambda>f. f),
      parse_duration = (\<lambda>s. if s = ''0s'' then Some 0
                              else if s = ''1s'' then Some 100000000 else None),
      from_iso_string = (\<lambda>s. if s = ''20150101T000000'' then Some 1000
                               else if s = ''20150102T000000'' then Some 2000 else None),
      new_GroupByTag = (\<lambda>m metric tags. \<lparr>get_mapping = Map.empty, local_matcher' = []\<rparr>),
      OrderBy_zero = SERIES,
      uninit_step = 0\<rparr>"

text \<open>
  A concrete matcher holding \<^verbatim>\<open>cpu host=a\<close> (id 1), \<^verbatim>\<open>cpu host=b\<close> (id 2) and
  \<^verbatim>\<open>mem host=a\<close> (id 3); an expression finds the series whose metric it starts with.
\<close>

definition demo_names :: "(string \<times> aku_ParamId) list" where
  "demo_names = [(''cpu host=a'', 1), (''cpu host=b'', 2), (''mem host=a'', 3)]"

definition demo_matcher :: SeriesMatcher where
  "demo_matcher =
     \<lparr>get_all_ids = map snd demo_names,
      regex_match = (\<lambda>expr. filter (\<lambda>p. take 3 expr = take 3 (fst p)) demo_names),
      id2str = (\<lambda>i. case find (\<lambda>p. snd p = i) demo_names of
                       Some p \<Rightarrow> fst p | None \<Rightarrow> []),
      match_name = (\<lambda>name. case map_of demo_names name of Some i \<Rightarrow> i | None \<Rightarrow> 0)\<rparr>"

text \<open>
  The documents \<^verbatim>\<open>{"aggregate": {"cpu": "max"}, "range": {...}}\<close>, and the same with
  \<^verbatim>\<open>"order-by": "series"\<close>.
\<close>

definition demo_aggregate_query :: ptree where
  "demo_aggregate_query = PTree []
     [(''aggregate'', PTree [] [(''cpu'', PTree ''max'' [])]),
      (''range'', PTree [] [(''from'', PTree ''20150101T000000'' []),
                            (''to'', PTree ''20150102T000000'' [])])]"

definition demo_aggregate_query_ordered :: ptree where
  "demo_aggregate_query_ordered = PTree []
     [(''aggregate'', PTree [] [(''cpu'', PTree ''max'' [])]),
      (''order-by'', PTree ''series'' []),
      (''range'', PTree [] [(''from'', PTree ''20150101T000000'' []),
                            (''to'', PTree ''20150102T000000'' [])])]"

section \<open>Properties\<close>

subsection \<open>validate_query\<close>

lemma validate_loop_empty_keywords:
  "validate_loop {} items =
     (if list_all (\<lambda>item. fst item \<in> ALLOWED_STMTS) items
      then AKU_SUCCESS else AKU_EQUERY_PARSING_ERROR)"
  by (induction items) (auto simp: Let_def UNIQUE_STMTS_def)

text \<open>
  C1. A document with both \<^verbatim>\<open>select\<close> and \<^verbatim>\<open>aggregate\<close>, and a document with
  \<^verbatim>\<open>select\<close> twice, pass \<^verbatim>\<open>validate_query\<close> with \<^verbatim>\<open>AKU_SUCCESS\<close>: the set of
  keywords seen so far stays empty, so neither the duplicate check nor the
  mutual-exclusion check can fire. Only an unknown key is rejected.
\<close>

theorem validate_query_accepts_select_with_aggregate:
  "validate_query (PTree [] [(''select'', PTree ''cpu'' []),
                             (''aggregate'', PTree [] [(''cpu'', PTree ''max'' [])])])
     = AKU_SUCCESS
   \<and> validate_query (PTree [] [(''select'', PTree ''cpu'' []),
                               (''select'', PTree ''mem'' [])])
     = AKU_SUCCESS
   \<and> validate_query (PTree [] [(''select'', PTree ''cpu'' []),
                               (''bogus'', PTree ''1'' [])])
     = AKU_EQUERY_PARSING_ERROR"
  by (simp add: validate_query_def validate_loop_empty_keywords ALLOWED_STMTS_def
        UNIQUE_STMTS_def)

subsection \<open>GroupByStatement\<close>

lemma puts_of_append: "puts_of (a @ b) = puts_of a @ puts_of b"
  by (induction a rule: puts_of.induct) simp_all

lemma puts_of_map_Put: "puts_of (map Put xs) = xs"
  by (induction xs) simp_all

lemma aligned_unat: "unat ((ts::u64) div s * s) = unat ts div unat s * unat s"
proof -
  have "unat ts div unat s * unat s \<le> unat ts" by simp
  also have "\<dots> < 2 ^ LENGTH(64)" by (rule unsigned_less)
  finally have "unat (ts div s) * unat s < 2 ^ LENGTH(64)" by (simp add: unat_div)
  then show ?thesis by (simp add: unat_mult_lem [THEN iffD1] unat_div)
qed

lemma unat_plus_u64: "unat (a::u64) + unat b < 2 ^ 64 \<Longrightarrow> unat (a + b) = unat a + unat b"
  using unat_add_lem [of a b] by simp

lemma GroupByStatement_put_first_hit:
  assumes "step' g \<noteq> 0" "first_hit' g"
  shows "GroupByStatement_put nxt g log s =
         GroupByStatement_put nxt
           (g\<lparr>first_hit' := False,
              lowerbound' := timestamp s div step' g * step' g,
              upperbound' := timestamp s div step' g * step' g + step' g\<rparr>) log s"
  using assms by (simp add: GroupByStatement_put_def Let_def)

lemma GroupByStatement_put_steady:
  assumes "step' g \<noteq> 0" "\<not> first_hit' g"
    and "unat (upperbound' g) = unat (lowerbound' g) + unat (step' g)"
    and "unat (lowerbound' g) \<le> unat (timestamp s)"
  shows "GroupByStatement_put accept_all g log s =
     (if unat (lowerbound' g) + unat (step' g) \<le> unat (timestamp s)
      then (True, g\<lparr>lowerbound' := lowerbound' g + step' g,
                     upperbound' := upperbound' g + step' g\<rparr>,
            log @ [Put (EMPTY_SAMPLE\<lparr>timestamp := upperbound' g\<rparr>), Put s])
      else (True, g, log @ [Put s]))"
  using assms
  by (simp add: GroupByStatement_put_def Let_def next_put_def accept_all_def
      word_le_nat_alt word_less_nat_alt)

lemma GroupByStatement_put_all_steady:
  assumes "step' g \<noteq> 0" "\<not> first_hit' g"
    and "unat (upperbound' g) = unat (lowerbound' g) + unat (step' g)"
    and "sorted (map timestamp xs)"
    and "\<forall>x\<in>set xs. unat (lowerbound' g) \<le> unat (timestamp x)"
    and "\<forall>x\<in>set xs. unat (timestamp x) + unat (step' g) < 2 ^ 64"
    and "\<forall>x\<in>set xs. \<not> is_EMPTY x"
  shows "\<exists>g1 out. GroupByStatement_put_all accept_all g log xs = (True, g1, log @ map Put out)
           \<and> filter (\<lambda>x. \<not> is_EMPTY x) out = xs
           \<and> length (filter is_EMPTY out) =
               markers_from (unat (step' g)) (unat (lowerbound' g)) (map (\<lambda>x. unat (timestamp x)) xs)"
  using assms
proof (induction xs arbitrary: g log)
  case Nil
  then show ?case by simp
next
  case (Cons x xs)
  let ?L = "unat (lowerbound' g)" and ?s = "unat (step' g)" and ?t = "unat (timestamp x)"
  have Lt: "?L \<le> ?t" and ov: "?t + ?s < 2 ^ 64" and ne: "\<not> is_EMPTY x"
    using Cons.prems by simp_all
  have later: "\<forall>y\<in>set xs. ?t \<le> unat (timestamp y)"
    using Cons.prems(4) by (auto simp: word_le_nat_alt)
  show ?case
  proof (cases "?L + ?s \<le> ?t")
    case True
    let ?g = "g\<lparr>lowerbound' := lowerbound' g + step' g, upperbound' := upperbound' g + step' g\<rparr>"
    let ?m = "EMPTY_SAMPLE\<lparr>timestamp := upperbound' g\<rparr>"
    have put: "GroupByStatement_put accept_all g log x = (True, ?g, log @ [Put ?m, Put x])"
      using GroupByStatement_put_steady [OF Cons.prems(1-3) Lt] True by simp
    have lo: "unat (lowerbound' ?g) = ?L + ?s"
      using True ov by (simp add: unat_plus_u64)
    have up: "unat (upperbound' ?g) = unat (lowerbound' ?g) + unat (step' ?g)"
      using True ov Cons.prems(3) lo by (simp add: unat_plus_u64)
    have "\<exists>g1 out. GroupByStatement_put_all accept_all ?g (log @ [Put ?m, Put x]) xs
              = (True, g1, (log @ [Put ?m, Put x]) @ map Put out)
           \<and> filter (\<lambda>x. \<not> is_EMPTY x) out = xs
           \<and> length (filter is_EMPTY out) =
               markers_from (unat (step' ?g)) (unat (lowerbound' ?g)) (map (\<lambda>x. unat (timestamp x)) xs)"
    proof (rule Cons.IH)
      show "step' ?g \<noteq> 0" "\<not> first_hit' ?g" using Cons.prems by simp_all
      show "unat (upperbound' ?g) = unat (lowerbound' ?g) + unat (step' ?g)" by (rule up)
      show "sorted (map timestamp xs)" using Cons.prems(4) by simp
      show "\<forall>y\<in>set xs. unat (lowerbound' ?g) \<le> unat (timestamp y)"
        using later True lo by fastforce
      show "\<forall>y\<in>set xs. unat (timestamp y) + unat (step' ?g) < 2 ^ 64"
        using Cons.prems(6) by simp
      show "\<forall>y\<in>set xs. \<not> is_EMPTY y" using Cons.prems(7) by simp
    qed
    then obtain g1 out where
      r: "GroupByStatement_put_all accept_all ?g (log @ [Put ?m, Put x]) xs
              = (True, g1, (log @ [Put ?m, Put x]) @ map Put out)"
      and f: "filter (\<lambda>x. \<not> is_EMPTY x) out = xs"
      and c: "length (filter is_EMPTY out) =
               markers_from ?s (?L + ?s) (map (\<lambda>x. unat (timestamp x)) xs)"
      using lo by auto
    have m: "is_EMPTY ?m" by (simp add: is_EMPTY_def EMPTY_SAMPLE_def)
    show ?thesis
      apply (rule exI [of _ g1], rule exI [of _ "?m # x # out"])
      using put r f c m ne True by simp
  next
    case False
    have put: "GroupByStatement_put accept_all g log x = (True, g, log @ [Put x])"
      using GroupByStatement_put_steady [OF Cons.prems(1-3) Lt] False by simp
    have "\<exists>g1 out. GroupByStatement_put_all accept_all g (log @ [Put x]) xs
              = (True, g1, (log @ [Put x]) @ map Put out)
           \<and> filter (\<lambda>x. \<not> is_EMPTY x) out = xs
           \<and> length (filter is_EMPTY out) =
               markers_from (unat (step' g)) (unat (lowerbound' g)) (map (\<lambda>x. unat (timestamp x)) xs)"
    proof (rule Cons.IH)
      show "step' g \<noteq> 0" "\<not> first_hit' g" using Cons.prems by simp_all
      show "unat (upperbound' g) = unat (lowerbound' g) + unat (step' g)" by (rule Cons.prems(3))
      show "sorted (map timestamp xs)" using Cons.prems(4) by simp
      show "\<forall>y\<in>set xs. unat (lowerbound' g) \<le> unat (timestamp y)"
        using later Lt by fastforce
      show "\<forall>y\<in>set xs. unat (timestamp y) + unat (step' g) < 2 ^ 64"
        using Cons.prems(6) by simp
      show "\<forall>y\<in>set xs. \<not> is_EMPTY y" using Cons.prems(7) by simp
    qed
    then obtain g1 out where
      r: "GroupByStatement_put_all accept_all g (log @ [Put x]) xs
              = (True, g1, (log @ [Put x]) @ map Put out)"
      and f: "filter (\<lambda>x. \<not> is_EMPTY x) out = xs"
      and c: "length (filter is_EMPTY out) =
               markers_from ?s ?L (map (\<lambda>x. unat (timestamp x)) xs)"
      by auto
    show ?thesis
      apply (rule exI [of _ g1], rule exI [of _ "x # out"])
      using put r f c ne False by simp
  qed
qed


lemma markers_from_le:
  assumes "0 < s" "sorted ts" "\<forall>t\<in>set ts. L \<le> t"
  shows "markers_from s L ts \<le> last (L # ts) div s - L div s"
  using assms
proof (induction ts arbitrary: L)
  case Nil
  then show ?case by simp
next
  case (Cons t ts)
  show ?case
  proof (cases "L + s \<le> t")
    case True
    have ge: "\<forall>u\<in>set ts. L + s \<le> u" using Cons.prems(2) True by auto
    have IH: "markers_from s (L + s) ts \<le> last ((L + s) # ts) div s - (L + s) div s"
      using Cons.IH [of "L + s"] Cons.prems ge by simp
    have le: "last ((L + s) # ts) \<le> last (L # t # ts)" using True by simp
    have "L + s \<le> last ((L + s) # ts)" using ge by (cases ts) auto
    then have lo: "(L + s) div s \<le> last ((L + s) # ts) div s" by (rule div_le_mono)
    have d: "(L + s) div s = Suc (L div s)" using Cons.prems(1) div_add_self2 [of s L] by simp
    have "last ((L + s) # ts) div s \<le> last (L # t # ts) div s" using le by (rule div_le_mono)
    with IH lo d True show ?thesis by simp
  next
    case False
    have IH: "markers_from s L ts \<le> last (L # ts) div s - L div s"
      using Cons.IH [of L] Cons.prems by simp
    have "last (L # ts) \<le> last (L # t # ts)" using Cons.prems(3) by simp
    then have "last (L # ts) div s \<le> last (L # t # ts) div s" by (rule div_le_mono)
    with IH False show ?thesis by simp
  qed
qed



lemma bucket_of: "0 < s \<Longrightarrow> s * k \<le> p \<Longrightarrow> p < s * k + s \<Longrightarrow> p div s = (k::nat)"
  by (rule div_nat_eqI) simp_all

lemma markers_from_eq:
  assumes "0 < s" "sorted (p # ts)" "s * k \<le> p" "p < s * k + s"
    and "no_bucket_skipped s (p # ts)"
  shows "markers_from s (s * k) ts = last (p # ts) div s - k"
  using assms
proof (induction ts arbitrary: p k)
  case Nil
  then show ?case by (simp add: bucket_of)
next
  case (Cons t ts)
  have pk: "p div s = k" using Cons.prems by (simp add: bucket_of)
  have pt: "p \<le> t" and adj: "t div s \<le> Suc k" and rest: "no_bucket_skipped s (t # ts)"
    and srt: "sorted (t # ts)"
    using Cons.prems pk by simp_all
  show ?case
  proof (cases "s * k + s \<le> t")
    case True
    have "Suc k \<le> t div s"
      using True Cons.prems(1) by (simp add: less_eq_div_iff_mult_less_eq mult.commute)
    with adj have tk: "t div s = Suc k" by simp
    have hi: "t < s * Suc k + s"
      using tk dividend_less_times_div [of s t] Cons.prems(1) by simp
    have lo: "s * Suc k \<le> t" using True by simp
    have IH: "markers_from s (s * Suc k) ts = last (t # ts) div s - Suc k"
      using Cons.IH [OF Cons.prems(1) srt lo hi rest] .
    have "t \<le> last (t # ts)" using srt by (cases ts) auto
    then have "t div s \<le> last (t # ts) div s" by (rule div_le_mono)
    then have ge: "Suc k \<le> last (t # ts) div s" using tk by simp
    have eq: "s * Suc k = s * k + s" by simp
    have l: "last (p # t # ts) = last (t # ts)" by simp
    have "markers_from s (s * k) (t # ts) = Suc (markers_from s (s * k + s) ts)"
      using True by simp
    also have "\<dots> = Suc (last (t # ts) div s - Suc k)" by (simp only: IH [unfolded eq])
    also have "\<dots> = last (t # ts) div s - k" using ge by simp
    finally show ?thesis unfolding l .
  next
    case False
    have IH: "markers_from s (s * k) ts = last (t # ts) div s - k"
      using Cons.IH [OF Cons.prems(1) srt _ _ rest, of k] pt Cons.prems(3) False by simp
    have l: "last (p # t # ts) = last (t # ts)" by simp
    have "markers_from s (s * k) (t # ts) = markers_from s (s * k) ts"
      using False by simp
    with IH show ?thesis unfolding l by simp
  qed
qed


lemma sorted_map_le_last:
  "sorted (map f xs) \<Longrightarrow> y \<in> set xs \<Longrightarrow> f y \<le> f (last xs)"
  by (induction xs) (auto split: if_splits)

lemma sorted_unat_timestamp:
  "sorted (map timestamp xs) \<Longrightarrow> sorted (map (\<lambda>x. unat (timestamp x)) xs)"
  by (induction xs) (auto simp: word_le_nat_alt)

lemma all_ge_Cons: "(L::nat) \<le> t \<Longrightarrow> \<forall>u\<in>set ts. t \<le> u \<Longrightarrow> \<forall>u\<in>set (t # ts). L \<le> u"
  by auto

lemma markers_from_first:
  "0 < s \<Longrightarrow> markers_from s (t div s * s) (t # ts) = markers_from s (t div s * s) ts"
  using dividend_less_div_times [of s t] by simp

lemma GroupByStatement_first_put:
  fixes step :: u64
  assumes "step \<noteq> 0" "unat (timestamp s) + unat step < 2 ^ 64"
  shows "GroupByStatement_put accept_all (GroupByStatement_init step) log s =
           (True, \<lparr>step' = step, first_hit' = False,
                   lowerbound' = timestamp s div step * step,
                   upperbound' = timestamp s div step * step + step\<rparr>, log @ [Put s])"
proof -
  let ?a = "timestamp s div step * step"
  let ?g = "\<lparr>step' = step, first_hit' = False, lowerbound' = ?a, upperbound' = ?a + step\<rparr>"
  have s0: "0 < unat step" using assms(1) by (simp add: unat_gt_0)
  have La: "unat ?a = unat (timestamp s) div unat step * unat step" by (rule aligned_unat)
  have Lt: "unat ?a \<le> unat (timestamp s)" unfolding La by simp
  have up: "unat (?a + step) = unat ?a + unat step"
    using Lt assms(2) by (intro unat_plus_u64) simp
  have "GroupByStatement_put accept_all (GroupByStatement_init step) log s
          = GroupByStatement_put accept_all ?g log s"
    using GroupByStatement_put_first_hit [of "GroupByStatement_init step" accept_all log s] assms(1)
    by (simp add: GroupByStatement_init_def)
  also have "\<dots> = (True, ?g, log @ [Put s])"
    using GroupByStatement_put_steady [of ?g s log] assms(1) up Lt
      dividend_less_div_times [OF s0, of "unat (timestamp s)"]
    by (simp add: La)
  finally show ?thesis .
qed

text \<open>
  C4 (amended). A monotone forward stream of data samples is driven through a fresh
  \<^verbatim>\<open>GroupByStatement\<close> with nonzero step \<open>s\<close>, the next node accepts every sample, and
  \<open>ts_last + s\<close> does not overflow 64 bits. Then every \<^verbatim>\<open>put\<close> returns true, the first
  sample aligns the bounds to \<open>[ts div s * s, ts div s * s + s)\<close>, the samples are all
  forwarded in order, and the number of \<^verbatim>\<open>EMPTY\<close> markers emitted is at most
  \<open>ts_last div s - ts_first div s\<close> (one \<^verbatim>\<open>put\<close> emits at most one marker). It is
  exactly that number when no sample lies more than one bucket after its predecessor.
\<close>

theorem GroupByStatement_marker_count:
  fixes step :: u64
  assumes step: "step \<noteq> 0" and ne: "xs \<noteq> []"
    and mono: "sorted (map timestamp xs)"
    and data: "\<forall>x\<in>set xs. \<not> is_EMPTY x"
    and ov: "unat (timestamp (last xs)) + unat step < 2 ^ 64"
  shows "GroupByStatement_put accept_all (GroupByStatement_init step) [] (hd xs) =
           (True, \<lparr>step' = step, first_hit' = False,
                   lowerbound' = timestamp (hd xs) div step * step,
                   upperbound' = timestamp (hd xs) div step * step + step\<rparr>, [Put (hd xs)])
         \<and> (case GroupByStatement_put_all accept_all (GroupByStatement_init step) [] xs of
           (ok, g1, log1) \<Rightarrow>
             ok \<and> filter (\<lambda>x. \<not> is_EMPTY x) (puts_of log1) = xs
             \<and> length (filter is_EMPTY (puts_of log1))
                 \<le> unat (timestamp (last xs) div step) - unat (timestamp (hd xs) div step)
             \<and> (no_bucket_skipped (unat step) (map (\<lambda>x. unat (timestamp x)) xs) \<longrightarrow>
                  length (filter is_EMPTY (puts_of log1))
                    = unat (timestamp (last xs) div step) - unat (timestamp (hd xs) div step)))"
proof -
  obtain x xs' where xs: "xs = x # xs'" using ne by (cases xs) auto
  let ?s = "unat step" and ?t = "unat (timestamp x)"
  let ?ts = "map (\<lambda>x. unat (timestamp x)) xs'"
  let ?ini = "GroupByStatement_init step"
  let ?a = "timestamp x div step * step"
  let ?g = "?ini\<lparr>first_hit' := False, lowerbound' := ?a, upperbound' := ?a + step\<rparr>"
  have s0: "0 < ?s" using step by (simp add: unat_gt_0)
  have lastle: "\<forall>y\<in>set xs. unat (timestamp y) \<le> unat (timestamp (last xs))"
    using sorted_map_le_last [OF mono] by (auto simp: word_le_nat_alt)
  have ovall: "\<forall>y\<in>set xs. unat (timestamp y) + ?s < 2 ^ 64"
    using lastle ov by fastforce
  have La: "unat ?a = ?t div ?s * ?s" by (rule aligned_unat)
  have Lt: "unat ?a \<le> ?t" unfolding La by simp
  have up: "unat (?a + step) = unat ?a + ?s"
    using Lt ovall xs by (intro unat_plus_u64) fastforce
  have first: "GroupByStatement_put_all accept_all ?ini [] xs
                 = GroupByStatement_put_all accept_all ?g [] xs"
  proof -
    have "GroupByStatement_put accept_all ?ini [] x = GroupByStatement_put accept_all ?g [] x"
      using GroupByStatement_put_first_hit [of ?ini accept_all "[]" x] step
      by (simp add: GroupByStatement_init_def)
    then show ?thesis unfolding xs by (simp only: GroupByStatement_put_all.simps)
  qed
  have "\<exists>g1 out. GroupByStatement_put_all accept_all ?g [] xs = (True, g1, [] @ map Put out)
           \<and> filter (\<lambda>x. \<not> is_EMPTY x) out = xs
           \<and> length (filter is_EMPTY out) =
               markers_from (unat (step' ?g)) (unat (lowerbound' ?g))
                 (map (\<lambda>x. unat (timestamp x)) xs)"
  proof (rule GroupByStatement_put_all_steady)
    show "step' ?g \<noteq> 0" "\<not> first_hit' ?g" using step by (simp_all add: GroupByStatement_init_def)
    show "unat (upperbound' ?g) = unat (lowerbound' ?g) + unat (step' ?g)"
      using up by (simp add: GroupByStatement_init_def)
    show "sorted (map timestamp xs)" by (rule mono)
    show "\<forall>y\<in>set xs. unat (lowerbound' ?g) \<le> unat (timestamp y)"
      using mono Lt unfolding xs by (auto simp: word_le_nat_alt)
    show "\<forall>y\<in>set xs. unat (timestamp y) + unat (step' ?g) < 2 ^ 64"
      using ovall by (simp add: GroupByStatement_init_def)
    show "\<forall>y\<in>set xs. \<not> is_EMPTY y" by (rule data)
  qed
  then obtain g1 out where
    run: "GroupByStatement_put_all accept_all ?ini [] xs = (True, g1, map Put out)"
    and keep: "filter (\<lambda>x. \<not> is_EMPTY x) out = xs"
    and cnt: "length (filter is_EMPTY out) = markers_from ?s (?t div ?s * ?s) (?t # ?ts)"
    using first La by (auto simp: GroupByStatement_init_def xs)
  have srt: "sorted (?t # ?ts)"
    using sorted_unat_timestamp [OF mono] unfolding xs by simp
  have cnt': "length (filter is_EMPTY out) = markers_from ?s (?t div ?s * ?s) ?ts"
    using cnt markers_from_first [OF s0] by simp
  have lastxs: "unat (timestamp (last xs)) = last (?t # ?ts)"
    unfolding xs by (simp add: last_map)
  have B: "unat (timestamp (last xs) div step) - unat (timestamp (hd xs) div step)
             = last (?t # ?ts) div ?s - ?t div ?s"
    by (simp add: unat_div lastxs) (simp add: xs)
  have le: "length (filter is_EMPTY out) \<le> last (?t # ?ts) div ?s - ?t div ?s"
  proof -
    have "markers_from ?s (?t div ?s * ?s) (?t # ?ts)
            \<le> last ((?t div ?s * ?s) # ?t # ?ts) div ?s - (?t div ?s * ?s) div ?s"
    proof (rule markers_from_le [OF s0 srt])
      have "?t div ?s * ?s \<le> ?t" by simp
      moreover have "\<forall>u\<in>set ?ts. ?t \<le> u" using srt by simp
      ultimately show "\<forall>u\<in>set (?t # ?ts). ?t div ?s * ?s \<le> u" by (rule all_ge_Cons)
    qed
    then show ?thesis using cnt s0 by simp
  qed
  have eq: "length (filter is_EMPTY out) = last (?t # ?ts) div ?s - ?t div ?s"
    if "no_bucket_skipped ?s (?t # ?ts)"
  proof -
    have "markers_from ?s (?s * (?t div ?s)) ?ts = last (?t # ?ts) div ?s - ?t div ?s"
      using dividend_less_times_div [of ?s ?t] s0 that
      by (intro markers_from_eq [OF s0 srt]) simp_all
    then show ?thesis using cnt' by (simp add: mult.commute)
  qed
  have le': "length (filter is_EMPTY out)
               \<le> unat (timestamp (last xs) div step) - unat (timestamp (hd xs) div step)"
    using le by (simp only: B)
  have eq': "length (filter is_EMPTY out)
               = unat (timestamp (last xs) div step) - unat (timestamp (hd xs) div step)"
    if "no_bucket_skipped ?s (map (\<lambda>x. unat (timestamp x)) xs)"
    using eq that by (simp only: B) (simp add: xs)
  have "unat (timestamp (hd xs)) + ?s < 2 ^ 64" using ovall xs by simp
  then have align: "GroupByStatement_put accept_all ?ini [] (hd xs) =
           (True, \<lparr>step' = step, first_hit' = False,
                   lowerbound' = timestamp (hd xs) div step * step,
                   upperbound' = timestamp (hd xs) div step * step + step\<rparr>, [Put (hd xs)])"
    using GroupByStatement_first_put [OF step, of "hd xs" "[]"] by simp
  have "case GroupByStatement_put_all accept_all ?ini [] xs of
           (ok, g1, log1) \<Rightarrow>
             ok \<and> filter (\<lambda>x. \<not> is_EMPTY x) (puts_of log1) = xs
             \<and> length (filter is_EMPTY (puts_of log1))
                 \<le> unat (timestamp (last xs) div step) - unat (timestamp (hd xs) div step)
             \<and> (no_bucket_skipped (unat step) (map (\<lambda>x. unat (timestamp x)) xs) \<longrightarrow>
                  length (filter is_EMPTY (puts_of log1))
                    = unat (timestamp (last xs) div step) - unat (timestamp (hd xs) div step))"
    using run keep le' eq' by (simp add: puts_of_map_Put)
  with align show ?thesis by (rule conjI)
qed


text \<open>
  C4 as stated fails: with step 10 the stream \<open>[9, 10]\<close> emits one marker where
  \<open>(10 - 9) div 10 = 0\<close>, and the stream \<open>[0, 25]\<close> emits one marker where
  \<open>(25 - 0) div 10 = 2\<close>.
\<close>

theorem GroupByStatement_marker_count_counterexample:
  "length (filter is_EMPTY (puts_of (snd (snd
      (GroupByStatement_put_all accept_all (GroupByStatement_init 10) []
         [data_sample 9 1, data_sample 10 1]))))) = 1
   \<and> unat ((timestamp (data_sample 10 1) - timestamp (data_sample 9 1)) div (10::u64)) = 0
   \<and> length (filter is_EMPTY (puts_of (snd (snd
      (GroupByStatement_put_all accept_all (GroupByStatement_init 10) []
         [data_sample 0 1, data_sample 25 1]))))) = 1
   \<and> unat ((timestamp (data_sample 25 1) - timestamp (data_sample 0 1)) div (10::u64)) = 2"
  by (simp add: GroupByStatement_put_def GroupByStatement_init_def data_sample_def
      next_put_def accept_all_def is_EMPTY_def EMPTY_SAMPLE_def Let_def)

theorem GroupByStatement_marker_count_witness:
  "case GroupByStatement_put_all accept_all (GroupByStatement_init 10) []
          [data_sample 5 1, data_sample 12 1, data_sample 27 1, data_sample 31 1] of
     (ok, g1, log1) \<Rightarrow> ok \<and> length (filter is_EMPTY (puts_of log1)) = 3"
proof -
  let ?xs = "[data_sample 5 1, data_sample 12 1, data_sample 27 1, data_sample 31 1]"
  have h1: "(10::u64) \<noteq> 0" by simp
  have h2: "?xs \<noteq> []" by simp
  have h3: "sorted (map timestamp ?xs)" by (simp add: data_sample_def)
  have h4: "\<forall>x\<in>set ?xs. \<not> is_EMPTY x" by (simp add: data_sample_def is_EMPTY_def)
  have h5: "unat (timestamp (last ?xs)) + unat (10::u64) < 2 ^ 64" by (simp add: data_sample_def)
  have h6: "no_bucket_skipped (unat (10::u64)) (map (\<lambda>x. unat (timestamp x)) ?xs)"
    by (simp add: data_sample_def)
  have B: "unat (timestamp (last ?xs) div 10) - unat (timestamp (hd ?xs) div 10) = 3"
    by (simp add: data_sample_def)
  obtain ok g1 log1 where
    r: "GroupByStatement_put_all accept_all (GroupByStatement_init 10) [] ?xs = (ok, g1, log1)"
    by (rule prod_cases3)
  have "ok \<and> length (filter is_EMPTY (puts_of log1)) = 3"
    using GroupByStatement_marker_count [OF h1 h2 h3 h4 h5, THEN conjunct2, unfolded r B] h6
    by simp
  then show ?thesis unfolding r by simp
qed


subsection \<open>RandomSamplingNode\<close>

lemma flush_loop_accept_all:
  "flush_loop accept_all log xs = (True, log @ map Put xs)"
  by (induction xs arbitrary: log) (simp_all add: next_put_def accept_all_def)

lemma RandomSamplingNode_flush_accept_all:
  "RandomSamplingNode_flush accept_all n log =
     (True, n\<lparr>samples' := []\<rparr>, log @ map Put (sort_key sample_key (samples' n)))"
  by (simp add: RandomSamplingNode_flush_def flush_loop_accept_all)

lemma RandomSamplingNode_put_data:
  assumes "\<not> is_EMPTY s" "length (samples' n) \<le> unat (buffer_size' n)" "buffer_size' n \<noteq> 0"
  shows "RandomSamplingNode_put nxt r n log s =
           Inr (True,
                n\<lparr>samples' := (if length (samples' n) < unat (buffer_size' n)
                                then samples' n @ [s]
                                else (samples' n)[r mod length (samples' n) := s])\<rparr>,
                log)"
proof (cases "length (samples' n) < unat (buffer_size' n)")
  case True
  then show ?thesis using assms(1) by (simp add: RandomSamplingNode_put_def is_EMPTY_def)
next
  case False
  then have len: "length (samples' n) = unat (buffer_size' n)" using assms(2) by simp
  have pos: "0 < unat (buffer_size' n)" using assms(3) by (simp add: unat_gt_0)
  let ?i = "r mod length (samples' n)"
  have lt: "?i < unat (buffer_size' n)" using len pos by simp
  also have "\<dots> < 2 ^ LENGTH(32)" by (rule unsigned_less)
  finally have ix: "unat (of_nat ?i :: u32) = ?i" by (simp add: unat_of_nat)
  have "(of_nat ?i :: u32) < buffer_size' n" using lt ix by (simp add: word_less_nat_alt)
  then show ?thesis
    using False assms(1) len pos ix lt
    by (simp add: RandomSamplingNode_put_def is_EMPTY_def Let_def)
qed

lemma mset_update_subseteq:
  "i < length xs \<Longrightarrow> mset (xs[i := v]) \<subseteq># add_mset v (mset xs)"
  by (simp add: mset_update)

lemma RandomSamplingNode_put_all_data:
  assumes "\<forall>sr\<in>set srs. \<not> is_EMPTY (fst sr)"
    and "length (samples' n) \<le> unat (buffer_size' n)" "buffer_size' n \<noteq> 0"
  shows "\<exists>buf. RandomSamplingNode_put_all nxt n log srs = Inr (True, n\<lparr>samples' := buf\<rparr>, log)
           \<and> length buf = min (unat (buffer_size' n)) (length (samples' n) + length srs)
           \<and> mset buf \<subseteq># mset (samples' n) + mset (map fst srs)"
  using assms
proof (induction srs arbitrary: n)
  case Nil
  then show ?case by (intro exI [of _ "samples' n"]) simp
next
  case (Cons sr srs)
  let ?b = "if length (samples' n) < unat (buffer_size' n) then samples' n @ [fst sr]
            else (samples' n)[snd sr mod length (samples' n) := fst sr]"
  let ?n = "n\<lparr>samples' := ?b\<rparr>"
  have put: "RandomSamplingNode_put nxt (snd sr) n log (fst sr) = Inr (True, ?n, log)"
    using RandomSamplingNode_put_data [of "fst sr" n nxt "snd sr" log] Cons.prems by simp
  have pos: "0 < unat (buffer_size' n)" using Cons.prems(3) by (simp add: unat_gt_0)
  have lenb: "length ?b = min (unat (buffer_size' n)) (Suc (length (samples' n)))"
    using Cons.prems(2) by auto
  have msb: "mset ?b \<subseteq># add_mset (fst sr) (mset (samples' n))"
  proof (cases "length (samples' n) < unat (buffer_size' n)")
    case True
    then show ?thesis by simp
  next
    case False
    then have "snd sr mod length (samples' n) < length (samples' n)"
      using Cons.prems(2) pos by simp
    then show ?thesis using False by (simp add: mset_update_subseteq)
  qed
  have "\<exists>buf. RandomSamplingNode_put_all nxt ?n log srs = Inr (True, ?n\<lparr>samples' := buf\<rparr>, log)
           \<and> length buf = min (unat (buffer_size' ?n)) (length (samples' ?n) + length srs)
           \<and> mset buf \<subseteq># mset (samples' ?n) + mset (map fst srs)"
    using Cons.prems lenb by (intro Cons.IH) auto
  then obtain buf where
    r: "RandomSamplingNode_put_all nxt ?n log srs = Inr (True, n\<lparr>samples' := buf\<rparr>, log)"
    and l: "length buf = min (unat (buffer_size' n)) (length ?b + length srs)"
    and m: "mset buf \<subseteq># mset ?b + mset (map fst srs)"
    by auto
  have m': "mset buf \<subseteq># mset (samples' n) + mset (map fst (sr # srs))"
  proof -
    have "mset ?b + mset (map fst srs) \<subseteq># add_mset (fst sr) (mset (samples' n)) + mset (map fst srs)"
      using msb by (rule subset_mset.add_right_mono)
    with m show ?thesis by (simp add: subset_mset.order_trans)
  qed
  have l': "length buf = min (unat (buffer_size' n)) (length (samples' n) + length (sr # srs))"
    using l lenb by auto
  show ?case
    using put r l' m' by (intro exI [of _ buf]) simp
qed


lemma RandomSamplingNode_put_all_append:
  "RandomSamplingNode_put_all nxt n log (a @ b) =
     (case RandomSamplingNode_put_all nxt n log a of
        Inl e \<Rightarrow> Inl e
      | Inr (ok, n1, log1) \<Rightarrow>
          if ok then RandomSamplingNode_put_all nxt n1 log1 b else Inr (False, n1, log1))"
  by (induction a arbitrary: n log) (auto split: sum.splits)

lemma RandomSamplingNode_put_marker:
  "is_EMPTY marker \<Longrightarrow>
     RandomSamplingNode_put nxt r n log marker = Inr (RandomSamplingNode_flush nxt n log)"
  by (simp add: RandomSamplingNode_put_def is_EMPTY_def)

lemma flush_loop_result:
  "(fst (flush_loop nxt log xs) \<longrightarrow> snd (flush_loop nxt log xs) = log @ map Put xs)
   \<and> (\<not> fst (flush_loop nxt log xs) \<longrightarrow>
        (\<exists>k<length xs. snd (flush_loop nxt log xs) = log @ map Put (take (Suc k) xs)
           \<and> \<not> nxt (log @ map Put (take k xs)) (xs ! k)))"
proof (induction xs arbitrary: log)
  case Nil
  then show ?case by simp
next
  case (Cons x xs)
  show ?case
  proof (cases "nxt log x")
    case True
    then have step: "flush_loop nxt log (x # xs) = flush_loop nxt (log @ [Put x]) xs"
      by (simp add: next_put_def)
    note IH = Cons.IH [of "log @ [Put x]"]
    show ?thesis
    proof (cases "fst (flush_loop nxt (log @ [Put x]) xs)")
      case True
      then show ?thesis using IH step by simp
    next
      case False
      then obtain k where k: "k < length xs"
        "snd (flush_loop nxt (log @ [Put x]) xs) = (log @ [Put x]) @ map Put (take (Suc k) xs)"
        "\<not> nxt ((log @ [Put x]) @ map Put (take k xs)) (xs ! k)"
        using IH by blast
      have "\<exists>j<length (x # xs).
              snd (flush_loop nxt log (x # xs)) = log @ map Put (take (Suc j) (x # xs))
              \<and> \<not> nxt (log @ map Put (take j (x # xs))) ((x # xs) ! j)"
        using k step by (intro exI [of _ "Suc k"]) simp
      then show ?thesis using False step by simp
    qed
  next
    case False
    then have r: "flush_loop nxt log (x # xs) = (False, log @ [Put x])"
      by (simp add: next_put_def)
    have "\<exists>j<length (x # xs).
              snd (flush_loop nxt log (x # xs)) = log @ map Put (take (Suc j) (x # xs))
              \<and> \<not> nxt (log @ map Put (take j (x # xs))) ((x # xs) ! j)"
      using False r by (intro exI [of _ 0]) simp
    then show ?thesis using r by simp
  qed
qed

lemma RandomSamplingNode_flush_result:
  "(fst (RandomSamplingNode_flush nxt n log) \<longrightarrow>
      RandomSamplingNode_flush nxt n log =
        (True, n\<lparr>samples' := []\<rparr>, log @ map Put (sort_key sample_key (samples' n))))
   \<and> (\<not> fst (RandomSamplingNode_flush nxt n log) \<longrightarrow>
        (\<exists>k<length (samples' n).
           RandomSamplingNode_flush nxt n log =
             (False, n\<lparr>samples' := sort_key sample_key (samples' n)\<rparr>,
              log @ map Put (take (Suc k) (sort_key sample_key (samples' n))))
           \<and> \<not> nxt (log @ map Put (take k (sort_key sample_key (samples' n))))
                   (sort_key sample_key (samples' n) ! k)))"
proof -
  let ?xs = "sort_key sample_key (samples' n)"
  obtain ok log1 where fl: "flush_loop nxt log ?xs = (ok, log1)" by (cases "flush_loop nxt log ?xs")
  have r: "RandomSamplingNode_flush nxt n log =
             (if \<not> ok then (False, n\<lparr>samples' := ?xs\<rparr>, log1) else (True, n\<lparr>samples' := []\<rparr>, log1))"
    using fl by (simp add: RandomSamplingNode_flush_def Let_def)
  show ?thesis
  proof (cases ok)
    case True
    then have "log1 = log @ map Put ?xs" using flush_loop_result [of nxt log ?xs] fl by simp
    then show ?thesis using r True by simp
  next
    case False
    then obtain k where "k < length ?xs" "log1 = log @ map Put (take (Suc k) ?xs)"
      "\<not> nxt (log @ map Put (take k ?xs)) (?xs ! k)"
      using flush_loop_result [of nxt log ?xs] fl by auto
    then show ?thesis using r False by auto
  qed
qed

text \<open>
  C8 (amended). A flush sorts the buffer stably ascending by \<open>(timestamp, paramid)\<close> and
  puts its samples in that order. If the next node accepts them all, the flush returns
  true with the buffer cleared; otherwise it returns false at the first refused sample,
  the rest is not put and the sorted buffer is kept. An \<^verbatim>\<open>EMPTY\<close> marker arriving at
  \<^verbatim>\<open>put\<close> is a flush; \<^verbatim>\<open>complete\<close> is a flush followed by the next node's
  \<^verbatim>\<open>complete\<close>. With capacity \<open>C \<ge> 1\<close>, an empty buffer, an accepting next node and
  \<open>L \<ge> C\<close> non-marker samples followed by a marker, exactly \<open>C\<close> samples are emitted,
  sorted, and they are a sub-multiset of the input, whatever the random values were.
\<close>

theorem RandomSamplingNode_flush_emits:
  assumes cap: "C \<noteq> 0"
    and data: "\<forall>sr\<in>set srs. \<not> is_EMPTY (fst sr)"
    and L: "unat C \<le> length srs"
    and mk: "is_EMPTY marker"
  shows "(fst (RandomSamplingNode_flush nxt n log) \<longrightarrow>
            RandomSamplingNode_flush nxt n log =
              (True, n\<lparr>samples' := []\<rparr>, log @ map Put (sort_key sample_key (samples' n))))
       \<and> (\<not> fst (RandomSamplingNode_flush nxt n log) \<longrightarrow>
            (\<exists>k<length (samples' n).
               RandomSamplingNode_flush nxt n log =
                 (False, n\<lparr>samples' := sort_key sample_key (samples' n)\<rparr>,
                  log @ map Put (take (Suc k) (sort_key sample_key (samples' n))))
               \<and> \<not> nxt (log @ map Put (take k (sort_key sample_key (samples' n))))
                       (sort_key sample_key (samples' n) ! k)))
       \<and> RandomSamplingNode_flush accept_all n log =
           (True, n\<lparr>samples' := []\<rparr>, log @ map Put (sort_key sample_key (samples' n)))
       \<and> sorted (map sample_key (sort_key sample_key (samples' n)))
       \<and> RandomSamplingNode_put nxt r n log marker = Inr (RandomSamplingNode_flush nxt n log)
       \<and> RandomSamplingNode_complete nxt n log =
           (fst (snd (RandomSamplingNode_flush nxt n log)),
            snd (snd (RandomSamplingNode_flush nxt n log)) @ [Complete])
       \<and> (case RandomSamplingNode_put_all accept_all (RandomSamplingNode_init C) []
                  (srs @ [(marker, r)]) of
             Inl e \<Rightarrow> False
           | Inr (ok, n2, log2) \<Rightarrow>
               ok \<and> samples' n2 = [] \<and> log2 = map Put (puts_of log2)
               \<and> length (puts_of log2) = unat C
               \<and> sorted (map sample_key (puts_of log2))
               \<and> mset (puts_of log2) \<subseteq># mset (map fst srs))"
proof -
  let ?ini = "RandomSamplingNode_init C"
  have "\<exists>buf. RandomSamplingNode_put_all accept_all ?ini [] srs
                 = Inr (True, ?ini\<lparr>samples' := buf\<rparr>, [])
           \<and> length buf = min (unat (buffer_size' ?ini)) (length (samples' ?ini) + length srs)
           \<and> mset buf \<subseteq># mset (samples' ?ini) + mset (map fst srs)"
    using data cap by (intro RandomSamplingNode_put_all_data) (simp_all add: RandomSamplingNode_init_def)
  then obtain buf where
    run: "RandomSamplingNode_put_all accept_all ?ini [] srs = Inr (True, ?ini\<lparr>samples' := buf\<rparr>, [])"
    and len: "length buf = unat C"
    and sub: "mset buf \<subseteq># mset (map fst srs)"
    using L by (auto simp: RandomSamplingNode_init_def)
  let ?out = "sort_key sample_key buf"
  have fin: "RandomSamplingNode_put_all accept_all ?ini [] (srs @ [(marker, r)])
               = Inr (True, ?ini\<lparr>samples' := []\<rparr>, map Put ?out)"
    using run mk
    by (simp add: RandomSamplingNode_put_all_append RandomSamplingNode_put_marker
        RandomSamplingNode_flush_accept_all)
  have "mset ?out \<subseteq># mset (map fst srs)" using sub by simp
  then have last: "case RandomSamplingNode_put_all accept_all ?ini [] (srs @ [(marker, r)]) of
             Inl e \<Rightarrow> False
           | Inr (ok, n2, log2) \<Rightarrow>
               ok \<and> samples' n2 = [] \<and> log2 = map Put (puts_of log2)
               \<and> length (puts_of log2) = unat C
               \<and> sorted (map sample_key (puts_of log2))
               \<and> mset (puts_of log2) \<subseteq># mset (map fst srs)"
    unfolding fin using len by (simp add: puts_of_map_Put)
  have c: "RandomSamplingNode_complete nxt n log =
           (fst (snd (RandomSamplingNode_flush nxt n log)),
            snd (snd (RandomSamplingNode_flush nxt n log)) @ [Complete])"
    by (simp add: RandomSamplingNode_complete_def next_complete_def split: prod.splits)
  have srt: "sorted (map sample_key (sort_key sample_key (samples' n)))" by simp
  note res = RandomSamplingNode_flush_result [of nxt n log]
  show ?thesis
    using res [THEN conjunct1] res [THEN conjunct2]
      RandomSamplingNode_flush_accept_all [of n log] srt
      RandomSamplingNode_put_marker [OF mk, of nxt r n log] c last
    by (intro conjI)
qed

theorem RandomSamplingNode_flush_emits_witness:
  "(case RandomSamplingNode_put_all accept_all (RandomSamplingNode_init 2) []
          [(data_sample 3 3, 0), (data_sample 1 1, 0), (data_sample 2 2, 5), (EMPTY_SAMPLE, 0)] of
     Inl e \<Rightarrow> False
   | Inr (ok, n2, log2) \<Rightarrow> ok \<and> samples' n2 = [] \<and> length (puts_of log2) = 2)
   \<and> fst (RandomSamplingNode_flush accept_all (RandomSamplingNode_init 2) [])
   \<and> \<not> fst (RandomSamplingNode_flush refuse_all
              \<lparr>buffer_size' = 2, samples' = [data_sample 2 2, data_sample 1 1]\<rparr> [])
   \<and> (\<exists>k<2. RandomSamplingNode_flush refuse_all
              \<lparr>buffer_size' = 2, samples' = [data_sample 2 2, data_sample 1 1]\<rparr> []
            = (False, \<lparr>buffer_size' = 2, samples' = [data_sample 1 1, data_sample 2 2]\<rparr>,
               map Put (take (Suc k) [data_sample 1 1, data_sample 2 2])))"
proof -
  let ?srs = "[(data_sample 3 3, 0::nat), (data_sample 1 1, 0), (data_sample 2 2, 5)]"
  let ?n = "\<lparr>buffer_size' = 2, samples' = [data_sample 2 2, data_sample 1 1]\<rparr>"
  have h1: "(2::u32) \<noteq> 0" by simp
  have h2: "\<forall>sr\<in>set ?srs. \<not> is_EMPTY (fst sr)" by (simp add: data_sample_def is_EMPTY_def)
  have h3: "unat (2::u32) \<le> length ?srs" by simp
  have h4: "is_EMPTY EMPTY_SAMPLE" by (simp add: EMPTY_SAMPLE_def is_EMPTY_def)
  have "case RandomSamplingNode_put_all accept_all (RandomSamplingNode_init 2) []
                  (?srs @ [(EMPTY_SAMPLE, 0)]) of
             Inl e \<Rightarrow> False
           | Inr (ok, n2, log2) \<Rightarrow>
               ok \<and> samples' n2 = [] \<and> log2 = map Put (puts_of log2)
               \<and> length (puts_of log2) = unat (2::u32)
               \<and> sorted (map sample_key (puts_of log2))
               \<and> mset (puts_of log2) \<subseteq># mset (map fst ?srs)"
    using RandomSamplingNode_flush_emits [OF h1 h2 h3 h4,
        where n = "RandomSamplingNode_init 2" and log = "[]" and nxt = accept_all and r = 0]
    by blast
  then have a: "case RandomSamplingNode_put_all accept_all (RandomSamplingNode_init 2) []
          [(data_sample 3 3, 0), (data_sample 1 1, 0), (data_sample 2 2, 5), (EMPTY_SAMPLE, 0)] of
     Inl e \<Rightarrow> False
   | Inr (ok, n2, log2) \<Rightarrow> ok \<and> samples' n2 = [] \<and> length (puts_of log2) = 2"
    by (auto split: sum.splits)
  have t: "fst (RandomSamplingNode_flush accept_all (RandomSamplingNode_init 2) [])"
    by (simp add: RandomSamplingNode_flush_def RandomSamplingNode_init_def)
  have srt: "sort_key sample_key [data_sample 2 2, data_sample 1 1]
               = [data_sample 1 1, data_sample 2 2]"
    by (simp add: data_sample_def sample_key_def word_le_nat_alt)
  have f: "\<not> fst (RandomSamplingNode_flush refuse_all ?n [])"
    by (simp add: RandomSamplingNode_flush_def srt next_put_def refuse_all_def)
  note rfs = RandomSamplingNode_flush_emits [OF h1 h2 h3 h4,
        where n = ?n and log = "[]" and nxt = refuse_all and r = 0,
        THEN conjunct2, THEN conjunct1, rule_format, OF f]
  have len: "length (samples' ?n) = 2" by simp
  have upd: "?n\<lparr>samples' := [data_sample 1 1, data_sample 2 2]\<rparr>
               = \<lparr>buffer_size' = 2, samples' = [data_sample 1 1, data_sample 2 2]\<rparr>" by simp
  have sel: "samples' ?n = [data_sample 2 2, data_sample 1 1]" by simp
  have r: "\<exists>k<2. RandomSamplingNode_flush refuse_all ?n []
            = (False, \<lparr>buffer_size' = 2, samples' = [data_sample 1 1, data_sample 2 2]\<rparr>,
               map Put (take (Suc k) [data_sample 1 1, data_sample 2 2]))"
    using rfs unfolding len unfolding sel srt upd append_Nil by blast
  from a t f r show ?thesis by (intro conjI)
qed

text \<open>
  C8 as stated fails for a flush whose next node refuses a sample: the loop returns at
  that sample, the rest is not drained and the (sorted) buffer is kept.
\<close>

theorem RandomSamplingNode_flush_counterexample:
  "RandomSamplingNode_put refuse_all 0
      \<lparr>buffer_size' = 2, samples' = [data_sample 2 2, data_sample 1 1]\<rparr> [] EMPTY_SAMPLE
     = Inr (False, \<lparr>buffer_size' = 2, samples' = [data_sample 1 1, data_sample 2 2]\<rparr>,
            [Put (data_sample 1 1)])"
  by (simp add: RandomSamplingNode_put_def RandomSamplingNode_flush_def EMPTY_SAMPLE_def
      data_sample_def sample_key_def next_put_def refuse_all_def word_le_nat_alt)

text \<open>
  C3. Capacity 2, four samples, the fourth drawing the random value 2: three samples
  have been seen, so Algorithm R would take index \<open>2 mod 3 = 2\<close> and discard the sample.
  \<^verbatim>\<open>put\<close> reduces modulo \<^verbatim>\<open>samples_.size()\<close>, which is the capacity 2 once the buffer
  is full: index \<open>2 mod 2 = 0\<close>, and slot 0 is replaced. (By
  \<open>RandomSamplingNode_put_data\<close> a full buffer never discards a sample.)
\<close>

theorem RandomSamplingNode_put_replaces_modulo_size:
  "RandomSamplingNode_put_all accept_all (RandomSamplingNode_init 2) []
      [(data_sample 1 1, 0), (data_sample 2 2, 0), (data_sample 3 3, 1), (data_sample 4 4, 2)]
     = Inr (True, \<lparr>buffer_size' = 2, samples' = [data_sample 4 4, data_sample 3 3]\<rparr>, [])"
  by code_simp


subsection \<open>MetadataQueryProcessor\<close>

lemma MetadataQueryProcessor_start_accept_all:
  "MetadataQueryProcessor_start accept_all s0 sz ids log =
     (True, log @ map (\<lambda>i. Put (id_sample s0 sz i)) ids)"
  by (induction ids arbitrary: log) (simp_all add: next_put_def accept_all_def)

lemma MetadataQueryProcessor_start_flush_loop:
  "MetadataQueryProcessor_start root s0 sz ids log = flush_loop root log (map (id_sample s0 sz) ids)"
  by (induction ids arbitrary: log) (simp_all split: prod.splits)

lemma MetadataQueryProcessor_start_result:
  "(fst (MetadataQueryProcessor_start root s0 sz ids log) \<longrightarrow>
      snd (MetadataQueryProcessor_start root s0 sz ids log)
        = log @ map (\<lambda>i. Put (id_sample s0 sz i)) ids)
   \<and> (\<not> fst (MetadataQueryProcessor_start root s0 sz ids log) \<longrightarrow>
        (\<exists>k<length ids.
           snd (MetadataQueryProcessor_start root s0 sz ids log)
             = log @ map (\<lambda>i. Put (id_sample s0 sz i)) (take (Suc k) ids)
           \<and> \<not> root (log @ map (\<lambda>i. Put (id_sample s0 sz i)) (take k ids))
                    (id_sample s0 sz (ids ! k))))"
proof -
  let ?xs = "map (id_sample s0 sz) ids"
  have eq: "MetadataQueryProcessor_start root s0 sz ids log = flush_loop root log ?xs"
    by (rule MetadataQueryProcessor_start_flush_loop)
  have m: "\<And>js. map Put (map (id_sample s0 sz) js) = map (\<lambda>i. Put (id_sample s0 sz i)) js"
    by simp
  show ?thesis
  proof (cases "fst (flush_loop root log ?xs)")
    case True
    then show ?thesis using flush_loop_result [of root log ?xs] eq m by simp
  next
    case False
    then obtain k where k: "k < length ?xs"
      "snd (flush_loop root log ?xs) = log @ map Put (take (Suc k) ?xs)"
      "\<not> root (log @ map Put (take k ?xs)) (?xs ! k)"
      using flush_loop_result [of root log ?xs] by blast
    have k': "k < length ids" using k(1) by simp
    have a: "snd (MetadataQueryProcessor_start root s0 sz ids log)
               = log @ map (\<lambda>i. Put (id_sample s0 sz i)) (take (Suc k) ids)"
      using k(2) eq by (simp add: take_map comp_def)
    have b: "\<not> root (log @ map (\<lambda>i. Put (id_sample s0 sz i)) (take k ids))
                    (id_sample s0 sz (ids ! k))"
      using k(3) k' by (simp add: take_map comp_def)
    show ?thesis using False eq k' a b by auto
  qed
qed

text \<open>
  C5 (amended). \<^verbatim>\<open>start\<close> puts one id-only sample (payload type \<^verbatim>\<open>PARAMID_BIT\<close>) for
  each id the filter returned, in that order. If the pipeline accepts them all it returns
  true; otherwise it returns false at the first refused sample and the later ids get no
  sample. The only calls \<^verbatim>\<open>start\<close> makes are these puts: it does not call
  \<^verbatim>\<open>complete\<close>, which is what \<^verbatim>\<open>stop\<close> does. \<^verbatim>\<open>put\<close> is a no-op returning false.
\<close>

theorem MetadataQueryProcessor_start_puts_ids:
  "(fst (MetadataQueryProcessor_start root s0 sz ids log) \<longrightarrow>
      snd (MetadataQueryProcessor_start root s0 sz ids log)
        = log @ map (\<lambda>i. Put (id_sample s0 sz i)) ids)
   \<and> (\<not> fst (MetadataQueryProcessor_start root s0 sz ids log) \<longrightarrow>
        (\<exists>k<length ids.
           snd (MetadataQueryProcessor_start root s0 sz ids log)
             = log @ map (\<lambda>i. Put (id_sample s0 sz i)) (take (Suc k) ids)
           \<and> \<not> root (log @ map (\<lambda>i. Put (id_sample s0 sz i)) (take k ids))
                    (id_sample s0 sz (ids ! k))))
   \<and> MetadataQueryProcessor_start accept_all s0 sz ids log =
       (True, log @ map (\<lambda>i. Put (id_sample s0 sz i)) ids)
   \<and> paramid (id_sample s0 sz i) = i
   \<and> ptype (payload (id_sample s0 sz i)) = PARAMID_BIT
   \<and> MetadataQueryProcessor_stop log = log @ [Complete]
   \<and> MetadataQueryProcessor_put sample log = (False, log)"
proof -
  note res = MetadataQueryProcessor_start_result [of root s0 sz ids log]
  have a: "paramid (id_sample s0 sz i) = i" by (simp add: id_sample_def)
  have b: "ptype (payload (id_sample s0 sz i)) = PARAMID_BIT" by (simp add: id_sample_def)
  have c: "MetadataQueryProcessor_stop log = log @ [Complete]"
    by (simp add: MetadataQueryProcessor_stop_def next_complete_def)
  have d: "MetadataQueryProcessor_put sample log = (False, log)"
    by (simp add: MetadataQueryProcessor_put_def)
  show ?thesis
    using res [THEN conjunct1] res [THEN conjunct2]
      MetadataQueryProcessor_start_accept_all [of s0 sz ids log] a b c d
    by (intro conjI)
qed

theorem MetadataQueryProcessor_start_puts_ids_witness:
  "fst (MetadataQueryProcessor_start accept_all (data_sample 7 7) 32 [1, 2] [])
   \<and> snd (MetadataQueryProcessor_start accept_all (data_sample 7 7) 32 [1, 2] [])
       = [Put (id_sample (data_sample 7 7) 32 1), Put (id_sample (data_sample 7 7) 32 2)]
   \<and> \<not> fst (MetadataQueryProcessor_start refuse_all (data_sample 7 7) 32 [1, 2] [])
   \<and> (\<exists>k<2. snd (MetadataQueryProcessor_start refuse_all (data_sample 7 7) 32 [1, 2] [])
              = map (\<lambda>i. Put (id_sample (data_sample 7 7) 32 i)) (take (Suc k) [1, 2]))"
proof -
  have t: "fst (MetadataQueryProcessor_start accept_all (data_sample 7 7) 32 [1, 2] [])"
    by (simp add: next_put_def accept_all_def)
  have f: "\<not> fst (MetadataQueryProcessor_start refuse_all (data_sample 7 7) 32 [1, 2] [])"
    by (simp add: next_put_def refuse_all_def)
  note acc = MetadataQueryProcessor_start_puts_ids
      [where root = accept_all and ?s0.0 = "data_sample 7 7" and sz = 32 and ids = "[1, 2]"
         and log = "[]" and i = 1 and sample = EMPTY_SAMPLE, THEN conjunct1]
  note rfs = MetadataQueryProcessor_start_puts_ids
      [where root = refuse_all and ?s0.0 = "data_sample 7 7" and sz = 32 and ids = "[1, 2]"
         and log = "[]" and i = 1 and sample = EMPTY_SAMPLE, THEN conjunct2, THEN conjunct1]
  have a: "snd (MetadataQueryProcessor_start accept_all (data_sample 7 7) 32 [1, 2] [])
       = [Put (id_sample (data_sample 7 7) 32 1), Put (id_sample (data_sample 7 7) 32 2)]"
    using acc t by simp
  have len: "length [1 :: aku_ParamId, 2] = 2" by simp
  have r: "\<exists>k<2. snd (MetadataQueryProcessor_start refuse_all (data_sample 7 7) 32 [1, 2] [])
              = map (\<lambda>i. Put (id_sample (data_sample 7 7) 32 i)) (take (Suc k) [1, 2])"
    using rfs [rule_format, OF f] unfolding len append_Nil by blast
  from t a f r show ?thesis by (intro conjI)
qed

text \<open>
  C5 as stated fails: after \<^verbatim>\<open>start\<close> the pipeline has not been completed, and a
  pipeline that refuses the first sample gets no sample for the second id.
\<close>

theorem MetadataQueryProcessor_start_counterexample:
  "MetadataQueryProcessor_start accept_all (data_sample 7 7) 32 [1, 2] [] =
     (True, [Put (id_sample (data_sample 7 7) 32 1), Put (id_sample (data_sample 7 7) 32 2)])
   \<and> Complete \<notin> set (snd (MetadataQueryProcessor_start accept_all (data_sample 7 7) 32 [1, 2] []))
   \<and> MetadataQueryProcessor_start refuse_all (data_sample 7 7) 32 [1, 2] [] =
     (False, [Put (id_sample (data_sample 7 7) 32 1)])"
  by (simp add: next_put_def accept_all_def refuse_all_def)

subsection \<open>Limiter and the processing topology\<close>

lemma Limiter_put_all_accept_all:
  assumes "counter' l \<le> unat (offset' l) + unat (limit' l)"
  shows "Limiter_put_all accept_all l log xs =
           (counter' l + length xs \<le> unat (offset' l) + unat (limit' l),
            l\<lparr>counter' := min (counter' l + length xs) (unat (offset' l) + unat (limit' l))\<rparr>,
            log @ map Put (take (unat (offset' l) + unat (limit' l) - max (counter' l) (unat (offset' l)))
                             (drop (unat (offset' l) - counter' l) xs)))"
  using assms
proof (induction xs arbitrary: l log)
  case Nil
  then show ?case by (simp add: min_def)
next
  case (Cons x xs)
  let ?c = "counter' l" and ?o = "unat (offset' l)" and ?m = "unat (limit' l)"
  consider (skip) "?c < ?o" | (pass) "?o \<le> ?c" "?c < ?o + ?m" | (stop) "?c = ?o + ?m"
    using Cons.prems by linarith
  then show ?case
  proof cases
    case skip
    then have put: "Limiter_put accept_all l log x = (True, l\<lparr>counter' := ?c + 1\<rparr>, log)"
      by (simp add: Limiter_put_def)
    have d: "drop (?o - ?c) (x # xs) = drop (?o - (?c + 1)) xs"
      using skip by (simp add: drop_Cons' )
    have m: "max ?c ?o = max (?c + 1) ?o" using skip by simp
    show ?thesis
      using Cons.IH [of "l\<lparr>counter' := ?c + 1\<rparr>" log] skip put d m by simp
  next
    case pass
    then have put: "Limiter_put accept_all l log x
                      = (True, l\<lparr>counter' := ?c + 1\<rparr>, log @ [Put x])"
      by (simp add: Limiter_put_def next_put_def accept_all_def)
    have t: "take (?o + ?m - max ?c ?o) (drop (?o - ?c) (x # xs))
               = x # take (?o + ?m - max (?c + 1) ?o) (drop (?o - (?c + 1)) xs)"
      using pass by (simp add: take_Cons' max_def)
    show ?thesis
      using Cons.IH [of "l\<lparr>counter' := ?c + 1\<rparr>" "log @ [Put x]"] pass put
      unfolding t by simp
  next
    case stop
    then have put: "Limiter_put accept_all l log x = (False, l, log)"
      by (simp add: Limiter_put_def)
    show ?thesis using stop put by (simp add: max_def)
  qed
qed

text \<open>
  C2 (amended). For a document without an \<^verbatim>\<open>offset\<close> key, the pipeline is the terminal
  node alone when \<^verbatim>\<open>limit\<close> is absent or 0, and otherwise a limiter built with the
  document's limit and offset 0, followed by the terminal node. A limiter built with limit
  \<open>l\<close> and offset \<open>o\<close> (modelled from the spec) skips the first \<open>o\<close> samples, forwards the
  next \<open>l\<close> at most, and answers the sample after those with false.
\<close>

theorem parse_processing_topology_limit:
  assumes "get_child_optional pt ''offset'' = None"
  shows "parse_processing_topology gv pt =
           (case get_child_optional pt ''limit'' of
              None \<Rightarrow> Inr (AKU_SUCCESS, [TerminalNode])
            | Some optlimit \<Rightarrow>
                (case gv (data optlimit) of
                   None \<Rightarrow> Inl PtreeBadData
                 | Some l \<Rightarrow>
                     Inr (AKU_SUCCESS,
                          if l \<noteq> 0 then [Limiter_node (Limiter_init l 0), TerminalNode]
                          else [TerminalNode])))
       \<and> Limiter_put_all accept_all (Limiter_init l ofs) log xs =
           (length xs \<le> unat ofs + unat l,
            \<lparr>limit' = l, offset' = ofs, counter' = min (length xs) (unat ofs + unat l)\<rparr>,
            log @ map Put (take (unat l) (drop (unat ofs) xs)))"
proof -
  have top: "parse_processing_topology gv pt =
           (case get_child_optional pt ''limit'' of
              None \<Rightarrow> Inr (AKU_SUCCESS, [TerminalNode])
            | Some optlimit \<Rightarrow>
                (case gv (data optlimit) of
                   None \<Rightarrow> Inl PtreeBadData
                 | Some l \<Rightarrow>
                     Inr (AKU_SUCCESS,
                          if l \<noteq> 0 then [Limiter_node (Limiter_init l 0), TerminalNode]
                          else [TerminalNode])))"
    using assms
    by (simp add: parse_processing_topology_def parse_limit_offset_def split: option.splits)
  have lim: "Limiter_put_all accept_all (Limiter_init l ofs) log xs =
           (length xs \<le> unat ofs + unat l,
            \<lparr>limit' = l, offset' = ofs, counter' = min (length xs) (unat ofs + unat l)\<rparr>,
            log @ map Put (take (unat l) (drop (unat ofs) xs)))"
    using Limiter_put_all_accept_all [of "Limiter_init l ofs" log xs]
    by (simp add: Limiter_init_def)
  from top lim show ?thesis by (rule conjI)
qed

theorem parse_processing_topology_limit_witness:
  "parse_processing_topology decimal_u64 (PTree [] [(''limit'', PTree ''2'' [])])
     = Inr (AKU_SUCCESS, [Limiter_node (Limiter_init 2 0), TerminalNode])
   \<and> Limiter_put_all accept_all (Limiter_init 2 1) []
        [data_sample 1 7, data_sample 2 7, data_sample 3 7, data_sample 4 7]
     = (False, \<lparr>limit' = 2, offset' = 1, counter' = 3\<rparr>,
        [Put (data_sample 2 7), Put (data_sample 3 7)])"
proof -
  let ?pt = "PTree [] [(''limit'', PTree ''2'' [])]"
  have h: "get_child_optional ?pt ''offset'' = None" by (simp add: get_child_optional_def)
  have d: "decimal_u64 ''2'' = Some 2" by (simp add: decimal_u64_def digit_of_def)
  show ?thesis
    using parse_processing_topology_limit [OF h, of decimal_u64 2 1 "[]"
        "[data_sample 1 7, data_sample 2 7, data_sample 3 7, data_sample 4 7]"] d
    by (simp add: get_child_optional_def)
qed

text \<open>
  C2 as stated fails: for \<^verbatim>\<open>{"limit": 2, "offset": 1}\<close> the limiter in the pipeline is
  built with limit 1 and offset 0, and for a document with neither key the pipeline has no
  limiter.
\<close>

theorem parse_processing_topology_counterexample:
  "parse_processing_topology decimal_u64
      (PTree [] [(''limit'', PTree ''2'' []), (''offset'', PTree ''1'' [])])
     = Inr (AKU_SUCCESS, [Limiter_node (Limiter_init 1 0), TerminalNode])
   \<and> parse_processing_topology decimal_u64 (PTree [] []) = Inr (AKU_SUCCESS, [TerminalNode])"
  by (simp add: parse_processing_topology_def parse_limit_offset_def get_child_optional_def
      decimal_u64_def digit_of_def)


subsection \<open>parse_where_clause\<close>

lemma map_of_insort_key:
  "k \<notin> fst ` set xs \<Longrightarrow> map_of (insort_key fst (k, v) xs) = (map_of xs)(k \<mapsto> v)"
  by (induction xs) (auto simp: fun_upd_twist)

lemma where_item_duplicate:
  "fst item \<in> fst ` set (tags' r) \<Longrightarrow> where_item r item = r"
  by (simp add: where_item_def add_tag_def add_tags_def Let_def)

lemma where_item_new:
  "metric' r \<noteq> [] \<Longrightarrow> fst item \<notin> fst ` set (tags' r) \<Longrightarrow>
     where_item r item =
       r\<lparr>tags' := insort_key fst (fst item, item_values (snd item)) (tags' r)\<rparr>"
  by (simp add: where_item_def add_tag_def add_tags_def Let_def item_values_def)

lemma where_item_metric: "metric' (where_item r item) = metric' r"
  by (simp add: where_item_def add_tag_def add_tags_def Let_def)

lemma foldl_where_item_metric: "metric' (foldl where_item r items) = metric' r"
  by (induction items arbitrary: r) (simp_all add: where_item_metric)

lemma foldl_where_item_tags:
  assumes "metric' r \<noteq> []"
  shows "map_of (tags' (foldl where_item r items)) =
           map_of (map (\<lambda>item. (fst item, item_values (snd item))) items) ++ map_of (tags' r)"
  using assms
proof (induction items arbitrary: r)
  case Nil
  then show ?case by simp
next
  case (Cons item items)
  have m: "metric' (where_item r item) \<noteq> []" using Cons.prems by (simp add: where_item_metric)
  show ?case
  proof (cases "fst item \<in> fst ` set (tags' r)")
    case True
    then have d: "fst item \<in> dom (map_of (tags' r))" by (simp add: dom_map_of_conv_image_fst)
    have "map_of (tags' (foldl where_item r (item # items))) =
            map_of (map (\<lambda>item. (fst item, item_values (snd item))) items) ++ map_of (tags' r)"
      using Cons.IH [OF m] True by (simp add: where_item_duplicate)
    also have "\<dots> = map_of (map (\<lambda>item. (fst item, item_values (snd item))) (item # items))
                      ++ map_of (tags' r)"
      using d by (auto simp: map_add_def fun_eq_iff split: option.splits)
    finally show ?thesis .
  next
    case False
    then have n: "fst item \<notin> dom (map_of (tags' r))" by (simp add: dom_map_of_conv_image_fst)
    have t: "map_of (tags' (where_item r item))
               = (map_of (tags' r))(fst item \<mapsto> item_values (snd item))"
      using False Cons.prems by (simp add: where_item_new map_of_insort_key)
    have "map_of (tags' (foldl where_item r (item # items))) =
            map_of (map (\<lambda>item. (fst item, item_values (snd item))) items)
              ++ map_of (tags' (where_item r item))"
      using Cons.IH [OF m] by simp
    also have "\<dots> = map_of (map (\<lambda>item. (fst item, item_values (snd item))) (item # items))
                      ++ map_of (tags' r)"
      unfolding t using n by (auto simp: map_add_def fun_eq_iff split: option.splits)
    finally show ?thesis .
  qed
qed


lemma extract_ids_single_metric:
  "length (metric' sr) = 1 \<Longrightarrow> extract_ids sr matcher = Inr (AKU_SUCCESS, base_ids sr matcher)"
  by (auto simp: extract_ids_def base_ids_def Let_def)

text \<open>
  C10. For a query with a metric and a \<^verbatim>\<open>where\<close> clause, \<^verbatim>\<open>parse_where_clause\<close> is
  \<^verbatim>\<open>extract_ids\<close> on the retreiver its loop built, whatever \<^verbatim>\<open>add_tag\<close> and
  \<^verbatim>\<open>add_tags\<close> returned. For every tag the retreiver holds the values of the tag's first
  occurrence in the clause. An item whose tag is already held leaves the retreiver as it
  is, \<^verbatim>\<open>add_tags\<close> and \<^verbatim>\<open>add_tag\<close> returning \<^verbatim>\<open>AKU_EBAD_ARG\<close>. With one metric the
  clause parses with \<^verbatim>\<open>AKU_SUCCESS\<close>.
\<close>

theorem parse_where_clause_ignores_duplicate_tags:
  assumes "metrics \<noteq> []" and "get_child_optional pt ''where'' = Some w"
  shows "parse_where_clause pt metrics matcher =
           extract_ids (foldl where_item (SeriesRetreiver_init metrics) (children w)) matcher
       \<and> metric' (foldl where_item (SeriesRetreiver_init metrics) (children w)) = metrics
       \<and> map_of (tags' (foldl where_item (SeriesRetreiver_init metrics) (children w))) =
           map_of (map (\<lambda>item. (fst item, item_values (snd item))) (children w))
       \<and> (\<forall>r item. fst item \<in> fst ` set (tags' r) \<longrightarrow>
             where_item r item = r
             \<and> add_tags (fst item) vals r = (AKU_EBAD_ARG, r)
             \<and> add_tag (fst item) v r = (AKU_EBAD_ARG, r))
       \<and> (length metrics = 1 \<longrightarrow>
             (\<exists>ids. parse_where_clause pt metrics matcher = Inr (AKU_SUCCESS, ids)))"
proof -
  let ?r = "foldl where_item (SeriesRetreiver_init metrics) (children w)"
  have a: "parse_where_clause pt metrics matcher = extract_ids ?r matcher"
    using assms by (simp add: parse_where_clause_def)
  have b: "metric' ?r = metrics"
    by (simp add: foldl_where_item_metric SeriesRetreiver_init_def)
  have c: "map_of (tags' ?r) =
             map_of (map (\<lambda>item. (fst item, item_values (snd item))) (children w))"
    using foldl_where_item_tags [of "SeriesRetreiver_init metrics" "children w"] assms(1)
    by (simp add: SeriesRetreiver_init_def)
  have d: "\<forall>r item. fst item \<in> fst ` set (tags' r) \<longrightarrow>
             where_item r item = r
             \<and> add_tags (fst item) vals r = (AKU_EBAD_ARG, r)
             \<and> add_tag (fst item) v r = (AKU_EBAD_ARG, r)"
    by (simp add: where_item_duplicate add_tags_def add_tag_def)
  have e: "length metrics = 1 \<longrightarrow>
             (\<exists>ids. parse_where_clause pt metrics matcher = Inr (AKU_SUCCESS, ids))"
    using a b extract_ids_single_metric [of ?r matcher] by simp
  from a b c d e show ?thesis by blast
qed

theorem parse_where_clause_ignores_duplicate_tags_witness:
  "map_of (tags' (foldl where_item (SeriesRetreiver_init [''cpu''])
                    [(''host'', PTree ''a'' []), (''host'', PTree ''b'' [])])) ''host''
     = Some [''a'']
   \<and> parse_where_clause
        (PTree [] [(''where'', PTree [] [(''host'', PTree ''a'' []), (''host'', PTree ''b'' [])])])
        [''cpu''] demo_matcher
     = Inr (AKU_SUCCESS, [1, 2])"
proof -
  let ?w = "PTree [] [(''host'', PTree ''a'' []), (''host'', PTree ''b'' [])]"
  let ?pt = "PTree [] [(''where'', ?w)]"
  have h1: "[''cpu''] \<noteq> []" by simp
  have h2: "get_child_optional ?pt ''where'' = Some ?w" by (simp add: get_child_optional_def)
  note t = parse_where_clause_ignores_duplicate_tags [OF h1 h2, of demo_matcher]
  have tg: "map_of (tags' (foldl where_item (SeriesRetreiver_init [''cpu'']) (children ?w))) ''host''
          = Some [''a'']"
    using t by (simp add: item_values_def empty_ptree_def get_value_string_def)
  have sr: "foldl where_item (SeriesRetreiver_init [''cpu'']) (children ?w)
              = \<lparr>metric' = [''cpu''], tags' = [(''host'', [''a''])]\<rparr>"
    by (simp add: where_item_def SeriesRetreiver_init_def add_tag_def empty_ptree_def
        get_value_string_def)
  have "parse_where_clause ?pt [''cpu''] demo_matcher = Inr (AKU_SUCCESS, [1, 2])"
    using t unfolding sr
    by (simp add: extract_ids_def demo_matcher_def demo_names_def)
  with tg show ?thesis by simp
qed


subsection \<open>extract_ids and the join columns\<close>

lemma secondary_ids_length:
  "secondary_ids matcher fm metric ids = Inr col \<Longrightarrow> length col = length ids"
  by (induction ids arbitrary: col) (auto simp: Let_def split: if_splits sum.splits)

lemma tail_ids_length:
  "tail_ids matcher fm tail ids = Inr appended \<Longrightarrow> length appended = length tail * length ids"
  by (induction tail arbitrary: appended)
     (auto split: sum.splits dest: secondary_ids_length)

lemma secondary_ids_total:
  assumes "\<forall>i\<in>set ids. id2str matcher i \<noteq> [] \<and> length fm \<le> length (id2str matcher i)"
  shows "\<exists>col. secondary_ids matcher fm metric ids = Inr col"
  using assms by (induction ids) (auto simp: Let_def)

lemma tail_ids_total:
  assumes "\<forall>i\<in>set ids. id2str matcher i \<noteq> [] \<and> length fm \<le> length (id2str matcher i)"
  shows "\<exists>appended. tail_ids matcher fm tail ids = Inr appended"
proof (induction tail)
  case Nil
  then show ?case by simp
next
  case (Cons metric tail)
  obtain col where "secondary_ids matcher fm metric ids = Inr col"
    using secondary_ids_total [OF assms] by blast
  with Cons show ?case by auto
qed

lemma extract_ids_cases:
  assumes "metric' sr \<noteq> []"
  shows "extract_ids sr matcher =
           (if 1 < length (metric' sr) then
              (case tail_ids matcher (hd (metric' sr)) (tl (metric' sr)) (base_ids sr matcher) of
                 Inl e \<Rightarrow> Inl e
               | Inr appended \<Rightarrow> Inr (AKU_SUCCESS, base_ids sr matcher @ appended))
            else Inr (AKU_SUCCESS, base_ids sr matcher))"
proof (cases "tags' sr = []")
  case True
  then have b: "base_ids sr matcher = map snd (regex_match matcher (hd (metric' sr) @ any_tags))"
    by (simp add: base_ids_def)
  show ?thesis unfolding b using assms True by (simp add: extract_ids_def Let_def)
next
  case False
  then have b: "base_ids sr matcher =
      map snd (regex_match matcher (hd (metric' sr) @ concat (map tag_regexp (tags' sr))))"
    by (simp add: base_ids_def)
  show ?thesis unfolding b using assms False by (simp add: extract_ids_def Let_def)
qed

lemma extract_ids_length:
  assumes "metric' sr \<noteq> []" "extract_ids sr matcher = Inr (st, ids)"
  shows "st = AKU_SUCCESS \<and> length ids = length (metric' sr) * length (base_ids sr matcher)
         \<and> take (length (base_ids sr matcher)) ids = base_ids sr matcher"
proof (cases "1 < length (metric' sr)")
  case True
  then obtain appended where
    t: "tail_ids matcher (hd (metric' sr)) (tl (metric' sr)) (base_ids sr matcher) = Inr appended"
    and r: "st = AKU_SUCCESS" "ids = base_ids sr matcher @ appended"
    using assms by (auto simp: extract_ids_cases split: sum.splits)
  have "length appended = (length (metric' sr) - 1) * length (base_ids sr matcher)"
    using tail_ids_length [OF t] by simp
  moreover have "length (metric' sr) = Suc (length (metric' sr) - 1)" using True by simp
  ultimately have "length ids = length (metric' sr) * length (base_ids sr matcher)"
    using r(2) by (metis length_append mult_Suc)
  then show ?thesis using r by simp
next
  case False
  then have "length (metric' sr) = 1" using assms(1) by (cases "metric' sr") auto
  then show ?thesis using assms by (simp add: extract_ids_cases)
qed

lemma extract_ids_total:
  assumes "metric' sr \<noteq> []"
    and "\<forall>i\<in>set (base_ids sr matcher).
           id2str matcher i \<noteq> [] \<and> length (hd (metric' sr)) \<le> length (id2str matcher i)"
  shows "\<exists>ids. extract_ids sr matcher = Inr (AKU_SUCCESS, ids)"
proof -
  obtain appended where
    "tail_ids matcher (hd (metric' sr)) (tl (metric' sr)) (base_ids sr matcher) = Inr appended"
    using tail_ids_total [OF assms(2)] by blast
  then show ?thesis using assms(1) by (simp add: extract_ids_cases)
qed

lemma join_columns_panic:
  "ncolumns \<noteq> 0 \<Longrightarrow> length ids mod ncolumns \<noteq> 0 \<Longrightarrow>
     join_columns ncolumns ids = Inl (Panic ''Invalid where statement processing results'')"
  by (simp add: join_columns_def)

lemma parse_join_stmt_nonempty:
  "parse_join_stmt pt = (AKU_SUCCESS, metrics) \<Longrightarrow> metrics \<noteq> []"
  by (auto simp: parse_join_stmt_def split: prod.splits if_splits)

lemma parse_where_clause_length:
  assumes "metrics \<noteq> []" "parse_where_clause pt metrics matcher = Inr (AKU_SUCCESS, ids)"
  shows "length ids mod length metrics = 0"
proof (cases "get_child_optional pt ''where''")
  case None
  let ?sr = "SeriesRetreiver_init metrics"
  have "extract_ids ?sr matcher = Inr (AKU_SUCCESS, ids)"
    using assms None by (simp add: parse_where_clause_def)
  moreover have "metric' ?sr = metrics" by (simp add: SeriesRetreiver_init_def)
  ultimately show ?thesis
    using extract_ids_length [of ?sr matcher AKU_SUCCESS ids] assms(1) by simp
next
  case (Some w)
  let ?sr = "foldl where_item (SeriesRetreiver_init metrics) (children w)"
  have "extract_ids ?sr matcher = Inr (AKU_SUCCESS, ids)"
    using assms Some by (simp add: parse_where_clause_def)
  moreover have "metric' ?sr = metrics"
    by (simp add: foldl_where_item_metric SeriesRetreiver_init_def)
  ultimately show ?thesis
    using extract_ids_length [of ?sr matcher AKU_SUCCESS ids] assms(1) by simp
qed

lemma secondary_ids_failure:
  "secondary_ids matcher fm metric ids = Inl e \<Longrightarrow>
     e = Panic ''Matcher data is broken'' \<or> e = OutOfRange"
  by (induction ids) (auto simp: Let_def split: if_splits sum.splits)

lemma tail_ids_failure:
  "tail_ids matcher fm tail ids = Inl e \<Longrightarrow>
     e = Panic ''Matcher data is broken'' \<or> e = OutOfRange"
  by (induction tail) (auto split: sum.splits dest: secondary_ids_failure)

lemma extract_ids_failure:
  "extract_ids sr matcher = Inl e \<Longrightarrow>
     e = Panic ''Matcher data is broken'' \<or> e = OutOfRange"
  by (auto simp: extract_ids_def Let_def split: if_splits sum.splits dest: tail_ids_failure)

lemma parse_where_clause_failure:
  "parse_where_clause pt metrics matcher = Inl e \<Longrightarrow>
     e = Panic ''Matcher data is broken'' \<or> e = OutOfRange"
  by (auto simp: parse_where_clause_def Let_def split: option.splits if_splits
      dest: extract_ids_failure)

lemma parse_join_query_no_remainder_panic:
  "parse_join_query E pt matcher \<noteq> Inl (Panic ''Invalid where statement processing results'')"
proof
  assume p: "parse_join_query E pt matcher = Inl (Panic ''Invalid where statement processing results'')"
  obtain st metrics where js: "parse_join_stmt pt = (st, metrics)" by (cases "parse_join_stmt pt")
  obtain so order where os: "parse_orderby pt = (so, order)" by (cases "parse_orderby pt")
  obtain sr tb te where rs: "parse_range_timestamp E pt = (sr, tb, te)"
    by (cases "parse_range_timestamp E pt") auto
  from p have v: "validate_query pt = AKU_SUCCESS"
    by (auto simp: parse_join_query_def Let_def split: if_splits)
  from p v js have st: "st = AKU_SUCCESS"
    by (auto simp: parse_join_query_def Let_def split: if_splits)
  then have ne: "metrics \<noteq> []" using js parse_join_stmt_nonempty by blast
  from p v js st os have so: "so = AKU_SUCCESS"
    by (auto simp: parse_join_query_def Let_def split: if_splits)
  show False
  proof (cases "parse_where_clause pt metrics matcher")
    case (Inl e)
    have "e = Panic ''Invalid where statement processing results''"
      using p v js st os so Inl by (simp add: parse_join_query_def Let_def)
    moreover have "e \<noteq> Panic ''Invalid where statement processing results''"
      using parse_where_clause_failure [OF Inl] by auto
    ultimately show False by simp
  next
    case (Inr r)
    obtain sw ids where r: "r = (sw, ids)" by (cases r)
    have sw: "sw = AKU_SUCCESS"
      using p v js st os so Inr r by (auto simp: parse_join_query_def Let_def split: if_splits)
    have srs: "sr = AKU_SUCCESS"
      using p v js st os so Inr r sw rs
      by (auto simp: parse_join_query_def Let_def split: if_splits)
    have m: "length ids mod length metrics = 0"
      using parse_where_clause_length [OF ne] Inr r sw by simp
    have "join_columns (length metrics) ids \<noteq> Inl (Panic ''Invalid where statement processing results'')"
      using m ne by (simp add: join_columns_def Let_def)
    then show False
      using p v js st os so Inr r sw rs srs
      by (auto simp: parse_join_query_def Let_def split: sum.splits)
  qed
qed


text \<open>
  C7. For a retreiver over \<open>k \<ge> 1\<close> metrics, whenever \<^verbatim>\<open>extract_ids\<close> returns, it returns
  \<^verbatim>\<open>AKU_SUCCESS\<close> and a list that starts with the \<open>n\<close> ids matched for the first metric
  and has length \<open>k * n\<close>: one id per matched series for each later metric; so the length
  is divisible by \<open>k\<close>. It does return when every matched id has a name at least as long as
  the first metric (otherwise it panics on the broken matcher). In \<^verbatim>\<open>parse_join_query\<close>
  a remainder is the panic, not a status, and that panic is never reached.
\<close>

theorem extract_ids_join_length:
  assumes "metric' sr \<noteq> []"
  shows "(\<forall>st ids. extract_ids sr matcher = Inr (st, ids) \<longrightarrow>
            st = AKU_SUCCESS
            \<and> length ids = length (metric' sr) * length (base_ids sr matcher)
            \<and> take (length (base_ids sr matcher)) ids = base_ids sr matcher
            \<and> length ids mod length (metric' sr) = 0)
       \<and> ((\<forall>i\<in>set (base_ids sr matcher).
              id2str matcher i \<noteq> [] \<and> length (hd (metric' sr)) \<le> length (id2str matcher i))
            \<longrightarrow> (\<exists>ids. extract_ids sr matcher = Inr (AKU_SUCCESS, ids)))
       \<and> (ncolumns \<noteq> 0 \<and> length ids' mod ncolumns \<noteq> 0 \<longrightarrow>
            join_columns ncolumns ids'
              = Inl (Panic ''Invalid where statement processing results''))
       \<and> parse_join_query E pt matcher'
            \<noteq> Inl (Panic ''Invalid where statement processing results'')"
proof -
  have a: "\<forall>st ids. extract_ids sr matcher = Inr (st, ids) \<longrightarrow>
            st = AKU_SUCCESS
            \<and> length ids = length (metric' sr) * length (base_ids sr matcher)
            \<and> take (length (base_ids sr matcher)) ids = base_ids sr matcher
            \<and> length ids mod length (metric' sr) = 0"
    using extract_ids_length [OF assms] by fastforce
  have b: "(\<forall>i\<in>set (base_ids sr matcher).
              id2str matcher i \<noteq> [] \<and> length (hd (metric' sr)) \<le> length (id2str matcher i))
            \<longrightarrow> (\<exists>ids. extract_ids sr matcher = Inr (AKU_SUCCESS, ids))"
    using extract_ids_total [OF assms] by blast
  have c: "ncolumns \<noteq> 0 \<and> length ids' mod ncolumns \<noteq> 0 \<longrightarrow>
            join_columns ncolumns ids'
              = Inl (Panic ''Invalid where statement processing results'')"
    by (simp add: join_columns_panic)
  from a b c parse_join_query_no_remainder_panic [of E pt matcher'] show ?thesis by blast
qed

theorem extract_ids_join_length_witness:
  "extract_ids \<lparr>metric' = [''cpu'', ''mem''], tags' = []\<rparr> demo_matcher
     = Inr (AKU_SUCCESS, [1, 2, 3, 0])
   \<and> join_columns 2 [1, 2, 3] = Inl (Panic ''Invalid where statement processing results'')
   \<and> join_columns 2 [1, 2, 3, 0] = Inr [[1, 2], [3, 0]]"
proof -
  let ?sr = "\<lparr>metric' = [''cpu'', ''mem''], tags' = []\<rparr>"
  have h: "metric' ?sr \<noteq> []" by simp
  have base: "base_ids ?sr demo_matcher = [1, 2]"
    by (simp add: base_ids_def demo_matcher_def demo_names_def any_tags_def)
  have names: "\<forall>i\<in>set (base_ids ?sr demo_matcher).
           id2str demo_matcher i \<noteq> [] \<and> length (hd (metric' ?sr)) \<le> length (id2str demo_matcher i)"
    unfolding base by (simp add: demo_matcher_def demo_names_def)
  note t = extract_ids_join_length [OF h,
      where matcher = demo_matcher and ncolumns = 2 and ids' = "[1, 2, 3]"
        and E = demo_externals and pt = demo_aggregate_query and matcher' = demo_matcher]
  from t names obtain ids where r: "extract_ids ?sr demo_matcher = Inr (AKU_SUCCESS, ids)"
    by blast
  have tl: "tail_ids demo_matcher ''cpu'' [''mem''] [1, 2] = Inr [3, 0]"
    by (simp add: demo_matcher_def demo_names_def)
  have "ids = [1, 2, 3, 0]"
    using r unfolding extract_ids_cases [OF h] base
    by (simp add: tl del: tail_ids.simps)
  moreover have "join_columns 2 [1, 2, 3] = Inl (Panic ''Invalid where statement processing results'')"
  proof -
    have "(2::nat) \<noteq> 0 \<and> length [1::aku_ParamId, 2, 3] mod 2 \<noteq> 0" by simp
    with t show ?thesis by blast
  qed
  moreover have "join_columns 2 [1, 2, 3, 0] = Inr [[1, 2], [3, 0]]"
    by code_simp
  ultimately show ?thesis using r by simp
qed


subsection \<open>parse_aggregate_query and create_aggregate\<close>

lemma validate_query_status:
  "validate_query pt = AKU_SUCCESS \<or> validate_query pt = AKU_EQUERY_PARSING_ERROR"
  by (simp add: validate_query_def validate_loop_empty_keywords)

lemma parse_aggregate_stmt_status:
  "fst (parse_aggregate_stmt pt) = AKU_SUCCESS
   \<or> fst (parse_aggregate_stmt pt) = AKU_EQUERY_PARSING_ERROR"
  by (simp add: parse_aggregate_stmt_def split: option.splits list.splits)

lemma parse_groupby_status:
  "fst (parse_groupby pt) = AKU_SUCCESS \<or> fst (parse_groupby pt) = AKU_EQUERY_PARSING_ERROR"
  by (simp add: parse_groupby_def split: option.splits prod.splits)

lemma parse_aggregate_query_with_order_by:
  assumes fs: "\<forall>s. fst (from_string E s) = AKU_SUCCESS
                  \<or> fst (from_string E s) = AKU_EQUERY_PARSING_ERROR"
    and ob: "get_child_optional pt ''order-by'' \<noteq> None"
  shows "parse_aggregate_query E pt matcher
           = Inr (AKU_EQUERY_PARSING_ERROR, ReshapeRequest_zero E)"
proof -
  obtain s1 metric aggfun where a: "parse_aggregate_stmt pt = (s1, metric, aggfun)"
    by (rule prod_cases3)
  obtain s2 func where f: "from_string E aggfun = (s2, func)" by (cases "from_string E aggfun")
  obtain s3 tags where g: "parse_groupby pt = (s3, tags)" by (cases "parse_groupby pt")
  have 1: "s1 = AKU_SUCCESS \<or> s1 = AKU_EQUERY_PARSING_ERROR"
    using parse_aggregate_stmt_status [of pt] a by simp
  have 2: "s2 = AKU_SUCCESS \<or> s2 = AKU_EQUERY_PARSING_ERROR"
    using fs [rule_format, of aggfun] f by simp
  have 3: "s3 = AKU_SUCCESS \<or> s3 = AKU_EQUERY_PARSING_ERROR"
    using parse_groupby_status [of pt] g by simp
  show ?thesis
    using validate_query_status [of pt] 1 2 3 ob a f g
    by (auto simp: parse_aggregate_query_def Let_def)
qed

lemma parse_aggregate_query_accepted:
  assumes "parse_aggregate_query E pt matcher = Inr (AKU_SUCCESS, r)"
  shows "order_by r = SERIES \<and> get_child_optional pt ''order-by'' = None"
  using assms
  by (auto simp: parse_aggregate_query_def Let_def set_group_by_def
      split: if_splits prod.splits option.splits sum.splits)

lemma create_aggregate_order_by_time:
  "order_by req = TIME \<Longrightarrow> create_aggregate req = Inl (Panic ''Invalid request'')"
  by (simp add: create_aggregate_def)

text \<open>
  C6. \<^verbatim>\<open>Aggregation::from_string\<close> is not among the sources; the spec lists an unknown
  aggregation function among the errors that surface as \<^verbatim>\<open>EQUERY_PARSING_ERROR\<close>, and
  that is the hypothesis on it. Then for every document with an \<^verbatim>\<open>order-by\<close> key
  \<^verbatim>\<open>parse_aggregate_query\<close> returns \<^verbatim>\<open>AKU_EQUERY_PARSING_ERROR\<close> with the
  value-initialised request; every request it returns with \<^verbatim>\<open>AKU_SUCCESS\<close> is ordered by
  series (and its document has no \<^verbatim>\<open>order-by\<close> key); and \<^verbatim>\<open>create_aggregate\<close> panics
  on a request ordered by time.
\<close>

theorem parse_aggregate_query_order_by:
  assumes "\<forall>s. fst (from_string E s) = AKU_SUCCESS
               \<or> fst (from_string E s) = AKU_EQUERY_PARSING_ERROR"
  shows "(get_child_optional pt ''order-by'' \<noteq> None \<longrightarrow>
            parse_aggregate_query E pt matcher
              = Inr (AKU_EQUERY_PARSING_ERROR, ReshapeRequest_zero E))
       \<and> (\<forall>r. parse_aggregate_query E pt matcher = Inr (AKU_SUCCESS, r) \<longrightarrow>
               order_by r = SERIES \<and> get_child_optional pt ''order-by'' = None)
       \<and> (order_by req = TIME \<longrightarrow> create_aggregate req = Inl (Panic ''Invalid request''))"
  using parse_aggregate_query_with_order_by [OF assms, of pt matcher]
    parse_aggregate_query_accepted [of E pt matcher]
    create_aggregate_order_by_time [of req]
  by blast

lemma demo_aggregate_query_eval: "parse_aggregate_query demo_externals demo_aggregate_query demo_matcher =
   Inr (AKU_SUCCESS, \<lparr>select_begin = 1000, select_end = 2000, select_columns = [[1, 2]],
      select_matcher = None, agg_enabled = True, agg_func = [''max''], agg_step = 0,
      order_by = SERIES, group_by_enabled = False, group_by_transient_map = Map.empty,
      group_by_matcher = None\<rparr>)"
  by (simp add: demo_aggregate_query_def parse_aggregate_query_def validate_query_def validate_loop_empty_keywords
     ALLOWED_STMTS_def parse_aggregate_stmt_def get_child_optional_def demo_externals_def
     get_value_string_def parse_groupby_def make_groupbytag_def parse_where_clause_def
     SeriesRetreiver_init_def extract_ids_def parse_range_timestamp_def range_item_def
     set_group_by_def ReshapeRequest_zero_def demo_matcher_def demo_names_def any_tags_def
     UNIQUE_STMTS_def)

theorem parse_aggregate_query_order_by_witness:
  "parse_aggregate_query demo_externals demo_aggregate_query_ordered demo_matcher
     = Inr (AKU_EQUERY_PARSING_ERROR, ReshapeRequest_zero demo_externals)
   \<and> order_by (snd (projr (parse_aggregate_query demo_externals demo_aggregate_query demo_matcher))) = SERIES
   \<and> fst (projr (parse_aggregate_query demo_externals demo_aggregate_query demo_matcher)) = AKU_SUCCESS
   \<and> create_aggregate ((ReshapeRequest_zero demo_externals)\<lparr>order_by := TIME\<rparr>)
       = Inl (Panic ''Invalid request'')"
proof -
  have h: "\<forall>s. fst (from_string demo_externals s) = AKU_SUCCESS
               \<or> fst (from_string demo_externals s) = AKU_EQUERY_PARSING_ERROR"
    by (simp add: demo_externals_def)
  have ob: "get_child_optional demo_aggregate_query_ordered ''order-by'' \<noteq> None"
    by (simp add: demo_aggregate_query_ordered_def get_child_optional_def)
  note t1 = parse_aggregate_query_order_by [OF h, of demo_aggregate_query_ordered demo_matcher
      "(ReshapeRequest_zero demo_externals)\<lparr>order_by := TIME\<rparr>"]
  note t2 = parse_aggregate_query_order_by [OF h, of demo_aggregate_query demo_matcher
      "(ReshapeRequest_zero demo_externals)\<lparr>order_by := TIME\<rparr>"]
  have a: "parse_aggregate_query demo_externals demo_aggregate_query_ordered demo_matcher
     = Inr (AKU_EQUERY_PARSING_ERROR, ReshapeRequest_zero demo_externals)"
    using t1 ob by blast
  have c: "create_aggregate ((ReshapeRequest_zero demo_externals)\<lparr>order_by := TIME\<rparr>)
       = Inl (Panic ''Invalid request'')"
    using t1 by simp
  have b: "order_by (snd (projr (parse_aggregate_query demo_externals demo_aggregate_query demo_matcher))) = SERIES
    \<and> fst (projr (parse_aggregate_query demo_externals demo_aggregate_query demo_matcher)) = AKU_SUCCESS"
    using t2 demo_aggregate_query_eval by simp
  from a b c show ?thesis by simp
qed

subsection \<open>parse_group_aggregate_query\<close>

lemma func_loop_count:
  "func_loop E funcs n kids = (err, funcs', n') \<Longrightarrow>
     n \<le> n' \<and> length funcs' = length funcs + (n' - n)"
proof (induction kids arbitrary: funcs n)
  case Nil
  then show ?case by simp
next
  case (Cons kid kids)
  obtain st f where fs: "from_string E (data (snd kid)) = (st, f)"
    by (cases "from_string E (data (snd kid))")
  show ?case
  proof (cases "st = AKU_SUCCESS")
    case True
    then have "func_loop E (funcs @ [f]) (n + 1) kids = (err, funcs', n')"
      using Cons.prems fs by (simp add: get_value_optional_string_def)
    from Cons.IH [OF this]
    have "n + 1 \<le> n' \<and> length funcs' = length funcs + 1 + (n' - (n + 1))" by simp
    then show ?thesis by arith
  next
    case False
    then show ?thesis using Cons.prems fs by (simp add: get_value_optional_string_def)
  qed
qed

lemma group_aggregate_loop_func_nonempty:
  "group_aggregate_loop E aggregate ((c0, c1, c2), result) kvs = ((d0, d1, d2), result') \<Longrightarrow>
     (c2 \<longrightarrow> ga_func result \<noteq> []) \<Longrightarrow> (d2 \<longrightarrow> ga_func result' \<noteq> [])"
proof (induction kvs arbitrary: c0 c1 c2 result)
  case Nil
  then show ?case by simp
next
  case (Cons kv kvs)
  show ?case
  proof (cases "fst kv = ''func'' \<and> \<not> c2")
    case True
    obtain err funcs n where fl:
      "func_loop E (ga_func result) 0
         (case get_child_optional aggregate ''func'' of Some f \<Rightarrow> children f | None \<Rightarrow> [])
         = (err, funcs, n)" by (rule prod_cases3)
    have cnt: "length funcs = length (ga_func result) + n"
      using func_loop_count [OF fl] by simp
    show ?thesis
    proof (cases err)
      case True
      then show ?thesis using Cons.prems \<open>fst kv = ''func'' \<and> \<not> c2\<close> fl
        by (simp add: Let_def)
    next
      case False
      have run: "group_aggregate_loop E aggregate ((c0, c1, n \<noteq> 0), result\<lparr>ga_func := funcs\<rparr>) kvs
              = ((d0, d1, d2), result')"
        using Cons.prems(1) True fl False by (simp add: Let_def)
      have "n \<noteq> 0 \<longrightarrow> ga_func (result\<lparr>ga_func := funcs\<rparr>) \<noteq> []"
        using cnt by auto
      with Cons.IH [OF run] show ?thesis by simp
    qed
  next
    case False
    then have "group_aggregate_loop E aggregate ((c0, c1, c2), result) (kv # kvs)
                 = ((c0, c1, c2), result)
             \<or> (\<exists>c0' c1' r'. ga_func r' = ga_func result
                   \<and> group_aggregate_loop E aggregate ((c0, c1, c2), result) (kv # kvs)
                     = group_aggregate_loop E aggregate ((c0', c1', c2), r') kvs)"
      by (auto simp: Let_def get_value_optional_string_def split: option.splits)
         (metis GroupAggregate.select_convs(2) GroupAggregate.surjective
            GroupAggregate.update_convs(1,3))+
    then show ?thesis
    proof
      assume "group_aggregate_loop E aggregate ((c0, c1, c2), result) (kv # kvs)
                = ((c0, c1, c2), result)"
      then show ?thesis using Cons.prems by simp
    next
      assume "\<exists>c0' c1' r'. ga_func r' = ga_func result
                   \<and> group_aggregate_loop E aggregate ((c0, c1, c2), result) (kv # kvs)
                     = group_aggregate_loop E aggregate ((c0', c1', c2), r') kvs"
      then obtain c0' c1' r' where r': "ga_func r' = ga_func result"
        and run: "group_aggregate_loop E aggregate ((c0', c1', c2), r') kvs
                    = ((d0, d1, d2), result')"
        using Cons.prems(1) by auto
      show ?thesis using Cons.IH [OF run] Cons.prems(2) r' by simp
    qed
  qed
qed

lemma parse_group_aggregate_stmt_func_nonempty:
  "parse_group_aggregate_stmt E pt = (AKU_SUCCESS, gagg) \<Longrightarrow> ga_func gagg \<noteq> []"
proof -
  assume a: "parse_group_aggregate_stmt E pt = (AKU_SUCCESS, gagg)"
  let ?r0 = "\<lparr>ga_metric = [], ga_func = [], ga_step = uninit_step E\<rparr>"
  show ?thesis
  proof (cases "get_child_optional pt ''group-aggregate''")
    case None
    then show ?thesis using a by (simp add: parse_group_aggregate_stmt_def)
  next
    case (Some aggregate)
    obtain d0 d1 d2 res where l:
      "group_aggregate_loop E aggregate ((False, False, False), ?r0) (children aggregate)
         = ((d0, d1, d2), res)"
      by (metis prod_cases3 surj_pair)
    have "d2 \<longrightarrow> ga_func res \<noteq> []"
      using group_aggregate_loop_func_nonempty [OF l] by simp
    then show ?thesis
      using a Some l by (auto simp: parse_group_aggregate_stmt_def Let_def split: if_splits)
  qed
qed

text \<open>
  C9. When the query is valid as far as \<^verbatim>\<open>validate_query\<close> checks, so that the
  statement parser is reached, and \<^verbatim>\<open>parse_group_aggregate_stmt\<close> succeeds with a step
  of 0 or an empty function list, \<^verbatim>\<open>parse_group_aggregate_query\<close> returns
  \<^verbatim>\<open>AKU_SUCCESS\<close>, the status the statement parser left in \<^verbatim>\<open>status\<close>, with the
  value-initialised request. (A successful statement parser never leaves the function
  list empty, so it is the step of 0 that reaches this return.)
\<close>

theorem parse_group_aggregate_query_zero_step:
  assumes "validate_query pt = AKU_SUCCESS"
    and "parse_group_aggregate_stmt E pt = (AKU_SUCCESS, gagg)"
    and "ga_step gagg = 0 \<or> ga_func gagg = []"
  shows "parse_group_aggregate_query E pt matcher = Inr (AKU_SUCCESS, ReshapeRequest_zero E)
         \<and> ga_func gagg \<noteq> []"
  using assms parse_group_aggregate_stmt_func_nonempty [OF assms(2)]
  by (auto simp: parse_group_aggregate_query_def Let_def)

theorem parse_group_aggregate_query_zero_step_witness:
  "parse_group_aggregate_query demo_externals
     (PTree [] [(''group-aggregate'',
                 PTree [] [(''step'', PTree ''0s'' []), (''metric'', PTree ''cpu'' []),
                           (''func'', PTree [] [([], PTree ''min'' [])])])])
     demo_matcher
   = Inr (AKU_SUCCESS, ReshapeRequest_zero demo_externals)"
proof -
  let ?pt = "PTree [] [(''group-aggregate'',
                 PTree [] [(''step'', PTree ''0s'' []), (''metric'', PTree ''cpu'' []),
                           (''func'', PTree [] [([], PTree ''min'' [])])])]"
  let ?g = "\<lparr>ga_metric = ''cpu'', ga_func = [''min''], ga_step = 0\<rparr>"
  have h1: "validate_query ?pt = AKU_SUCCESS"
    by (simp add: validate_query_def validate_loop_empty_keywords ALLOWED_STMTS_def
        UNIQUE_STMTS_def)
  have h2: "parse_group_aggregate_stmt demo_externals ?pt = (AKU_SUCCESS, ?g)"
    by (simp add: parse_group_aggregate_stmt_def get_child_optional_def
        get_value_optional_string_def demo_externals_def)
  have h3: "ga_step ?g = 0 \<or> ga_func ?g = []" by simp
  show ?thesis
    using parse_group_aggregate_query_zero_step [OF h1 h2 h3, of demo_matcher] by simp
qed

end
